theory Spec2Isabelle
  imports Complex_Main
begin

section \<open>The hover-scrub image carousel of static_dev/js/carousel.js\<close>

text \<open>
  The widget is DOM event wiring: \<open>window.initCarousels(scope)\<close> walks the carousel
  containers of a scope and, for each, builds a closure (\<open>imagesUrl\<close>, \<open>totalImages\<close>,
  \<open>currentIndex\<close>, \<open>imagesLoaded\<close>, \<open>isProcessing\<close>) and registers listeners that
  call \<open>loadImages\<close> and \<open>updateCarousel\<close>. The embedding keeps the part of the DOM
  the code reads and writes as records, the closures as records stored with their
  container, every listener registration as a list entry, and every event of the host as
  a constructor dispatched to the registered listeners.

  Numbers: JavaScript Numbers are modelled exactly, indices and counts as \<open>int\<close>,
  pixel coordinates as \<open>rat\<close> (every finite double is a rational); rounding, NaN and
  the infinities of IEEE arithmetic are outside the model.
  Strings are \<open>string\<close>; white space is the ASCII part of the \<open>\s\<close> class.
  \<open>JSON.parse\<close> is a built-in of the host and is a parameter of the model.
\<close>

subsection \<open>Strings: white space, decimal digits\<close>

definition is_ws :: "char \<Rightarrow> bool" where
  "is_ws ch = (ch = CHR '' '' \<or> ch = CHR 0x09 \<or> ch = CHR 0x0A \<or> ch = CHR 0x0B
     \<or> ch = CHR 0x0C \<or> ch = CHR 0x0D)"

text \<open>\<open>s.replace(/\s+/g, ' ')\<close>: every maximal run of white space becomes one space.\<close>

function collapse_ws :: "string \<Rightarrow> string" where
  "collapse_ws [] = []"
| "collapse_ws (ch # cs) =
     (if is_ws ch then CHR '' '' # collapse_ws (dropWhile is_ws cs)
      else ch # collapse_ws cs)"
  by pat_completeness auto
termination
  by (relation "measure length") (auto simp: length_dropWhile_le less_Suc_eq_le)

definition trim :: "string \<Rightarrow> string" where
  "trim s = rev (dropWhile is_ws (rev (dropWhile is_ws s)))"

definition digit_val :: "char \<Rightarrow> nat option" where
  "digit_val ch =
     (if ch = CHR ''0'' then Some 0 else if ch = CHR ''1'' then Some 1
      else if ch = CHR ''2'' then Some 2 else if ch = CHR ''3'' then Some 3
      else if ch = CHR ''4'' then Some 4 else if ch = CHR ''5'' then Some 5
      else if ch = CHR ''6'' then Some 6 else if ch = CHR ''7'' then Some 7
      else if ch = CHR ''8'' then Some 8 else if ch = CHR ''9'' then Some 9
      else None)"

definition digit_char :: "nat \<Rightarrow> char" where
  "digit_char d =
     (if d = 0 then CHR ''0'' else if d = 1 then CHR ''1''
      else if d = 2 then CHR ''2'' else if d = 3 then CHR ''3''
      else if d = 4 then CHR ''4'' else if d = 5 then CHR ''5''
      else if d = 6 then CHR ''6'' else if d = 7 then CHR ''7''
      else if d = 8 then CHR ''8'' else CHR ''9'')"

definition is_digit :: "char \<Rightarrow> bool" where
  "is_digit ch = (digit_val ch \<noteq> None)"

text \<open>The value of a string of decimal digits, most significant first.\<close>

definition digits_value :: "string \<Rightarrow> nat" where
  "digits_value ds = foldl (\<lambda>acc ch. 10 * acc + (case digit_val ch of None \<Rightarrow> 0 | Some d \<Rightarrow> d)) 0 ds"

text \<open>
  \<open>String(n)\<close> for an integer Number, as the template literal
  \<open>`[data-carousel-image="${currentIndex}"]`\<close> and \<open>setAttribute('data-carousel-image', i)\<close>
  compute it.
\<close>

function string_of_nat :: "nat \<Rightarrow> string" where
  "string_of_nat n =
     (if n < 10 then [digit_char n] else string_of_nat (n div 10) @ [digit_char (n mod 10)])"
  by pat_completeness auto
termination
  by (relation "measure id") auto

definition string_of_int :: "int \<Rightarrow> string" where
  "string_of_int i = (if i < 0 then CHR ''-'' # string_of_nat (nat (- i)) else string_of_nat (nat i))"

text \<open>
  \<open>parseInt(s, 10)\<close>: leading white space is skipped, one sign is read, then the longest
  run of decimal digits; no digit gives NaN, which is \<open>None\<close> here. A missing
  \<open>data-total-images\<close> attribute reads as \<open>undefined\<close>, which \<open>parseInt\<close> converts to the
  string \<open>undefined\<close>.
\<close>

definition parseInt :: "string \<Rightarrow> int option" where
  "parseInt s =
     (let t = dropWhile is_ws s;
          neg = (case t of [] \<Rightarrow> False | ch # _ \<Rightarrow> ch = CHR ''-'');
          u = (case t of [] \<Rightarrow> [] | ch # r \<Rightarrow> if ch = CHR ''-'' \<or> ch = CHR ''+'' then r else t);
          ds = takeWhile is_digit u
      in if ds = [] then None
         else Some (if neg then - int (digits_value ds) else int (digits_value ds)))"

definition parseInt_attr :: "string option \<Rightarrow> int option" where
  "parseInt_attr a = (case a of None \<Rightarrow> parseInt ''undefined'' | Some s \<Rightarrow> parseInt s)"

subsection \<open>DOMTokenList: \<open>classList.add\<close>, \<open>remove\<close>, \<open>replace\<close>\<close>

definition classList_add :: "string \<Rightarrow> string list \<Rightarrow> string list" where
  "classList_add t ts = (if t \<in> set ts then ts else ts @ [t])"

definition classList_remove :: "string \<Rightarrow> string list \<Rightarrow> string list" where
  "classList_remove t ts = filter (\<lambda>x. x \<noteq> t) ts"

text \<open>
  \<open>replace(token, newToken)\<close> does nothing when \<open>token\<close> is absent; otherwise the first
  occurrence of either token becomes \<open>newToken\<close> and every other occurrence of either is
  dropped (the ordered-set replace of the DOM standard).
\<close>

fun set_replace :: "string \<Rightarrow> string \<Rightarrow> string list \<Rightarrow> string list" where
  "set_replace old new [] = []"
| "set_replace old new (t # ts) =
     (if t = old \<or> t = new then new # filter (\<lambda>x. x \<noteq> old \<and> x \<noteq> new) ts
      else t # set_replace old new ts)"

definition classList_replace :: "string \<Rightarrow> string \<Rightarrow> string list \<Rightarrow> string list" where
  "classList_replace old new ts = (if old \<in> set ts then set_replace old new ts else ts)"

subsection \<open>JSON values and the image list\<close>

datatype json = JNull | JBool bool | JNum rat | JStr string | JArr "json list"
  | JObj "(string \<times> json) list"

text \<open>JavaScript truthiness of a parsed JSON value.\<close>

fun truthy :: "json \<Rightarrow> bool" where
  "truthy JNull = False"
| "truthy (JBool b) = b"
| "truthy (JNum q) = (q \<noteq> 0)"
| "truthy (JStr s) = (s \<noteq> [])"
| "truthy (JArr _) = True"
| "truthy (JObj _) = True"

datatype exn = SyntaxError | TypeError

text \<open>
  The \<open>try\<close> block of \<open>initCarousels\<close>:
  \<^verbatim>\<open>const cleanedData = carousel.dataset.images.replace(/\s+/g, ' ').trim();
  imagesUrl = JSON.parse(cleanedData).filter(url => url && url !== '');\<close>
  A missing \<open>data-images\<close> attribute makes \<open>.replace\<close> throw a TypeError, a string that
  is not JSON makes \<open>JSON.parse\<close> throw a SyntaxError, and a JSON value that is not an
  array has no \<open>filter\<close> method (TypeError).
\<close>

definition parse_images :: "(string \<Rightarrow> json option) \<Rightarrow> string option \<Rightarrow> exn + json list" where
  "parse_images JSON_parse attr =
     (case attr of
        None \<Rightarrow> Inl TypeError
      | Some s \<Rightarrow>
          (let cleanedData = trim (collapse_ws s) in
           case JSON_parse cleanedData of
             None \<Rightarrow> Inl SyntaxError
           | Some (JArr urls) \<Rightarrow> Inr (filter (\<lambda>url. truthy url \<and> url \<noteq> JStr []) urls)
           | Some _ \<Rightarrow> Inl TypeError))"

subsection \<open>The DOM the carousel reads and writes\<close>

text \<open>
  An element below the container: what \<open>loadImages\<close> sets on the images it creates and
  what \<open>updateCarousel\<close> reads and toggles. \<open>src\<close> holds the value assigned to
  \<open>img.src\<close>, before the DOM renders it as a string.
\<close>

record elem =
  src :: "json option"
  alt :: "string option"
  classes :: "string list"
  data_carousel_image :: "string option"

text \<open>
  A dot: an element carrying \<open>data-dot-index\<close>. \<open>dot_click\<close> lists its click
  listeners in registration order, each the closure it belongs to and the \<open>index\<close> it
  captured.
\<close>

record dot =
  dot_classes :: "string list"
  dot_display :: string
  dot_click :: "(nat \<times> nat) list"

text \<open>The variables one run of the \<open>forEach\<close> body closes over.\<close>

record closure =
  imagesUrl :: "json list"
  totalImages :: int
  currentIndex :: int
  imagesLoaded :: bool
  isProcessing :: bool

datatype listener = OnMouseEnter | OnMouseMove | OnMouseLeave

text \<open>
  A carousel container (an element carrying \<open>data-carousel\<close>) with what hangs off it:
  \<^item> \<open>data_initialized\<close>, \<open>dataset_images\<close>, \<open>dataset_totalImages\<close>: its attributes
    \<open>data-initialized\<close>, \<open>data-images\<close>, \<open>data-total-images\<close> (\<open>None\<close> when absent);
  \<^item> \<open>in_card\<close>: whether \<open>carousel.closest('.card')\<close> finds a card;
  \<^item> \<open>elems\<close>: the elements below the container, in document order (\<open>appendChild\<close>
    adds at the end);
  \<^item> \<open>dotElements\<close>: the elements \<open>dotsContainer.querySelectorAll('[data-dot-index]')\<close>
    selects in that card, empty when the card has no \<open>[data-carousel-dots]\<close>; each card
    is taken to hold one carousel;
  \<^item> \<open>listeners\<close>: the listeners registered on the container, in registration order,
    each with the closure it belongs to; \<open>closures\<close>: the closures created for it;
  \<^item> \<open>frames\<close>: the callbacks handed to \<open>requestAnimationFrame\<close> and not yet run,
    each the closure it belongs to and the \<open>clientX\<close> of the event it captured.
\<close>

record carousel =
  data_initialized :: "string option"
  in_card :: bool
  dataset_images :: "string option"
  dataset_totalImages :: "string option"
  elems :: "elem list"
  dotElements :: "dot list"
  listeners :: "(listener \<times> nat) list"
  closures :: "closure list"
  frames :: "(nat \<times> rat) list"

text \<open>\<open>console.error\<close> of the \<open>catch\<close> block, with the exception it was given.\<close>

datatype log = ImageParseError exn

subsection \<open>\<open>loadImages\<close> and \<open>updateCarousel\<close>\<close>

definition new_img :: "int \<Rightarrow> json \<Rightarrow> elem" where
  "new_img i url =
     \<lparr>src = Some url, alt = Some ''Preview'',
      classes = [''absolute'', ''w-full'', ''h-full'', ''object-cover'', ''transition-all'',
                 ''duration-200'', ''z-0''],
      data_carousel_image = Some (string_of_int i)\<rparr>"

definition loadImages :: "closure \<Rightarrow> carousel \<Rightarrow> closure \<times> carousel" where
  "loadImages cl c =
     (if imagesLoaded cl then (cl, c)
      else (cl\<lparr>imagesLoaded := True\<rparr>,
            c\<lparr>elems := elems c @
                 map (\<lambda>i. new_img (int i) (imagesUrl cl ! i)) [1 ..< length (imagesUrl cl)]\<rparr>))"

text \<open>\<open>querySelector\<close>: the position of the first element that matches, if any.\<close>

fun find_first :: "('a \<Rightarrow> bool) \<Rightarrow> 'a list \<Rightarrow> nat option" where
  "find_first P [] = None"
| "find_first P (x # xs) = (if P x then Some 0 else map_option Suc (find_first P xs))"

definition tagged :: "int \<Rightarrow> elem \<Rightarrow> bool" where
  "tagged i e = (data_carousel_image e = Some (string_of_int i))"

definition querySelector_image :: "int \<Rightarrow> carousel \<Rightarrow> nat option" where
  "querySelector_image i c = find_first (tagged i) (elems c)"

definition elem_replace :: "nat \<Rightarrow> string \<Rightarrow> string \<Rightarrow> elem list \<Rightarrow> elem list" where
  "elem_replace p old new es =
     es[p := (es ! p)\<lparr>classes := classList_replace old new (classes (es ! p))\<rparr>]"

text \<open>\<open>if (dotElements[i]) dotElements[i].classList.replace(old, new)\<close>.\<close>

definition dot_replace :: "int \<Rightarrow> string \<Rightarrow> string \<Rightarrow> dot list \<Rightarrow> dot list" where
  "dot_replace i old new ds =
     (if 0 \<le> i \<and> nat i < length ds
      then ds[nat i := (ds ! nat i)\<lparr>dot_classes :=
                          classList_replace old new (dot_classes (ds ! nat i))\<rparr>]
      else ds)"

definition updateCarousel :: "int \<Rightarrow> closure \<Rightarrow> carousel \<Rightarrow> closure \<times> carousel" where
  "updateCarousel newIndex cl c =
     (if newIndex = currentIndex cl \<or> newIndex < 0 \<or> newIndex \<ge> totalImages cl then (cl, c)
      else
        (let (cl1, c1) = (if \<not> imagesLoaded cl \<and> newIndex > 0 then loadImages cl c else (cl, c));
             currentImg = querySelector_image (currentIndex cl1) c1;
             nextImg = querySelector_image newIndex c1;
             c2 = (case currentImg of
                     None \<Rightarrow> c1
                   | Some p \<Rightarrow>
                       c1\<lparr>elems := elem_replace p ''z-10'' ''z-0'' (elems c1),
                          dotElements := dot_replace (currentIndex cl1) ''bg-black''
                                           ''bg-black/20'' (dotElements c1)\<rparr>);
             c3 = (case nextImg of
                     None \<Rightarrow> c2
                   | Some q \<Rightarrow>
                       c2\<lparr>elems := elem_replace q ''z-0'' ''z-10'' (elems c2),
                          dotElements := dot_replace newIndex ''bg-black/20''
                                           ''bg-black'' (dotElements c2)\<rparr>)
         in (cl1\<lparr>currentIndex := newIndex\<rparr>, c3)))"

subsection \<open>\<open>initCarousels\<close>\<close>

text \<open>\<open>dotElements.forEach((dot, index) => { if (index >= totalImages) ... })\<close>.\<close>

definition hide_extra_dots :: "int \<Rightarrow> dot list \<Rightarrow> dot list" where
  "hide_extra_dots total_images ds =
     (if total_images \<noteq> int (length ds)
      then map (\<lambda>(index, d). if int index \<ge> total_images then d\<lparr>dot_display := ''none''\<rparr> else d)
             (enumerate 0 ds)
      else ds)"

text \<open>
  \<open>if (dotElements[0]) { classList.add('bg-black'); classList.remove('bg-black/20') }\<close>.
\<close>

definition mark_first_dot :: "dot list \<Rightarrow> dot list" where
  "mark_first_dot ds =
     (case ds of
        [] \<Rightarrow> []
      | d # r \<Rightarrow>
          d\<lparr>dot_classes := classList_remove ''bg-black/20''
                              (classList_add ''bg-black'' (dot_classes d))\<rparr> # r)"

definition add_click_listeners :: "nat \<Rightarrow> dot list \<Rightarrow> dot list" where
  "add_click_listeners k ds =
     map (\<lambda>(index, d). d\<lparr>dot_click := dot_click d @ [(k, index)]\<rparr>) (enumerate 0 ds)"

text \<open>\<open>parseInt(carousel.dataset.totalImages, 10) || 1\<close>: NaN and 0 are falsy.\<close>

definition total_of :: "string option \<Rightarrow> int" where
  "total_of a = (case parseInt_attr a of None \<Rightarrow> 1 | Some n \<Rightarrow> if n = 0 then 1 else n)"

text \<open>
  The body of \<open>carousels.forEach\<close>, for one container: the container afterwards and what
  was written to the console. A new closure gets the next free position \<open>k\<close> in
  \<open>closures\<close>, and the listeners registered for it carry \<open>k\<close>.
\<close>

definition init_one :: "(string \<Rightarrow> json option) \<Rightarrow> carousel \<Rightarrow> carousel \<times> log list" where
  "init_one JSON_parse c0 =
     (let c = c0\<lparr>data_initialized := Some ''true''\<rparr> in
      if \<not> in_card c then (c, [])
      else
        case parse_images JSON_parse (dataset_images c) of
          Inl e \<Rightarrow> (c, [ImageParseError e])
        | Inr urls \<Rightarrow>
            (let total_images = total_of (dataset_totalImages c);
                 c1 = c\<lparr>dotElements := hide_extra_dots total_images (dotElements c)\<rparr>
             in if total_images \<le> 1 then (c1\<lparr>dotElements := mark_first_dot (dotElements c1)\<rparr>, [])
                else
                  (let k = length (closures c1);
                       c2 = c1\<lparr>closures := closures c1 @
                                 [\<lparr>imagesUrl = urls, totalImages = total_images, currentIndex = 0,
                                   imagesLoaded = False, isProcessing = False\<rparr>],
                               listeners := listeners c1 @ [(OnMouseEnter, k)]\<rparr>;
                       c3 = c2\<lparr>dotElements := add_click_listeners k (dotElements c2)\<rparr>;
                       c4 = c3\<lparr>listeners := listeners c3 @ [(OnMouseMove, k), (OnMouseLeave, k)]\<rparr>
                   in (c4\<lparr>dotElements := mark_first_dot (dotElements c4)\<rparr>, []))))"

text \<open>
  A page: its carousel containers and the console. A scope is given by what the code
  asks of it: \<open>descendants\<close> are the containers \<open>scope.querySelectorAll\<close> finds below it
  in document order (\<open>None\<close> when the scope has no such method), \<open>self\<close> is the
  container the scope itself is, when it has \<open>hasAttribute\<close> and carries
  \<open>data-carousel\<close>. Containers are named by their position in the page.
\<close>

record page =
  containers :: "carousel list"
  console :: "log list"

record scope =
  descendants :: "nat list option"
  self :: "nat option"

definition uninitialized :: "page \<Rightarrow> nat \<Rightarrow> bool" where
  "uninitialized p k = (k < length (containers p) \<and> data_initialized (containers p ! k) = None)"

definition select :: "scope \<Rightarrow> page \<Rightarrow> nat list" where
  "select s p =
     (case descendants s of None \<Rightarrow> [] | Some ks \<Rightarrow> filter (uninitialized p) ks) @
     (case self s of None \<Rightarrow> [] | Some k \<Rightarrow> if uninitialized p k then [k] else [])"

definition init_at :: "(string \<Rightarrow> json option) \<Rightarrow> page \<Rightarrow> nat \<Rightarrow> page" where
  "init_at JSON_parse p k =
     (let (c, logged) = init_one JSON_parse (containers p ! k)
      in p\<lparr>containers := (containers p)[k := c], console := console p @ logged\<rparr>)"

definition initCarousels :: "(string \<Rightarrow> json option) \<Rightarrow> scope \<Rightarrow> page \<Rightarrow> page" where
  "initCarousels JSON_parse s p = foldl (init_at JSON_parse) p (select s p)"

subsection \<open>Events\<close>

record rect =
  rect_left :: rat
  rect_width :: rat

text \<open>
  What the host can deliver to a container: the pointer enters, a click on the dot at a
  position of \<open>dotElements\<close>, the pointer moves (whether \<open>e.target\<close> lies inside an
  element of class \<open>group/fire\<close>, and \<open>e.clientX\<close>), the pointer leaves, and an
  animation frame, at which \<open>carousel.getBoundingClientRect()\<close> returns the given
  rectangle.
\<close>

datatype event = MouseEnter | Click nat | MouseMove bool rat | MouseLeave | AnimationFrame rect

text \<open>Running a listener of closure \<open>k\<close>: it reads and writes that closure and the DOM.\<close>

definition with_closure ::
  "nat \<Rightarrow> (closure \<Rightarrow> carousel \<Rightarrow> closure \<times> carousel) \<Rightarrow> carousel \<Rightarrow> carousel" where
  "with_closure k h c =
     (if k < length (closures c)
      then (let (cl, c1) = h (closures c ! k) c in c1\<lparr>closures := (closures c1)[k := cl]\<rparr>)
      else c)"

definition onMouseEnter :: "closure \<Rightarrow> carousel \<Rightarrow> closure \<times> carousel" where
  "onMouseEnter cl c = loadImages cl c"

definition onClick :: "nat \<Rightarrow> closure \<Rightarrow> carousel \<Rightarrow> closure \<times> carousel" where
  "onClick index cl c = (let (cl1, c1) = loadImages cl c in updateCarousel (int index) cl1 c1)"

definition onMouseMove :: "bool \<Rightarrow> rat \<Rightarrow> nat \<Rightarrow> closure \<Rightarrow> carousel \<Rightarrow> closure \<times> carousel" where
  "onMouseMove in_fire clientX k cl c =
     (if in_fire then (cl, c)
      else if isProcessing cl then (cl, c)
      else (cl\<lparr>isProcessing := True\<rparr>, c\<lparr>frames := frames c @ [(k, clientX)]\<rparr>))"

text \<open>The callback of \<open>requestAnimationFrame\<close> in the \<open>mousemove\<close> listener.\<close>

definition frameCallback :: "rect \<Rightarrow> rat \<Rightarrow> closure \<Rightarrow> carousel \<Rightarrow> closure \<times> carousel" where
  "frameCallback r clientX cl c =
     (if rect_width r = 0 then (cl\<lparr>isProcessing := False\<rparr>, c)
      else
        (let zoneWidth = rect_width r / of_int (totalImages cl);
             relativeX = clientX - rect_left r;
             zoneIndex = \<lfloor>relativeX / zoneWidth\<rfloor>;
             safeIndex = max 0 (min zoneIndex (totalImages cl - 1));
             (cl1, c1) = updateCarousel safeIndex cl c
         in (cl1\<lparr>isProcessing := False\<rparr>, c1)))"

definition onMouseLeave :: "closure \<Rightarrow> carousel \<Rightarrow> closure \<times> carousel" where
  "onMouseLeave cl c = updateCarousel 0 cl c"

fun run_listener :: "event \<Rightarrow> listener \<times> nat \<Rightarrow> carousel \<Rightarrow> carousel" where
  "run_listener MouseEnter (OnMouseEnter, k) c = with_closure k onMouseEnter c"
| "run_listener (MouseMove in_fire clientX) (OnMouseMove, k) c =
     with_closure k (onMouseMove in_fire clientX k) c"
| "run_listener MouseLeave (OnMouseLeave, k) c = with_closure k onMouseLeave c"
| "run_listener _ _ c = c"

definition dispatch :: "event \<Rightarrow> carousel \<Rightarrow> carousel" where
  "dispatch ev c =
     (case ev of
        Click j \<Rightarrow>
          (if j < length (dotElements c)
           then foldl (\<lambda>c1 (k, index). with_closure k (onClick index) c1) c
                  (dot_click (dotElements c ! j))
           else c)
      | AnimationFrame r \<Rightarrow>
          foldl (\<lambda>c1 (k, clientX). with_closure k (frameCallback r clientX) c1)
            (c\<lparr>frames := []\<rparr>) (frames c)
      | _ \<Rightarrow> foldl (\<lambda>c1 l. run_listener ev l c1) c (listeners c))"

text \<open>
  The life of one container. It enters the document as markup: no listener, no closure,
  no pending frame callback. From then on \<open>initCarousels\<close> may run over a scope that
  holds it, which processes it when it does not carry \<open>data-initialized\<close>, and the host
  may deliver any event.
\<close>

definition fresh :: "carousel \<Rightarrow> bool" where
  "fresh c = (listeners c = [] \<and> closures c = [] \<and> frames c = []
     \<and> (\<forall>d \<in> set (dotElements c). dot_click d = []))"

definition init_if_selected :: "(string \<Rightarrow> json option) \<Rightarrow> carousel \<Rightarrow> carousel" where
  "init_if_selected JSON_parse c =
     (if data_initialized c = None then fst (init_one JSON_parse c) else c)"

inductive reachable :: "(string \<Rightarrow> json option) \<Rightarrow> carousel \<Rightarrow> carousel \<Rightarrow> bool"
  for JSON_parse :: "string \<Rightarrow> json option" and c0 :: carousel where
  start: "fresh c0 \<Longrightarrow> reachable JSON_parse c0 c0"
| init: "reachable JSON_parse c0 c \<Longrightarrow> reachable JSON_parse c0 (init_if_selected JSON_parse c)"
| event: "reachable JSON_parse c0 c \<Longrightarrow> reachable JSON_parse c0 (dispatch ev c)"

subsection \<open>Invariants of the reachable states\<close>

text \<open>The index of a closure lies in \<open>[0, totalImages - 1]\<close>.\<close>

definition in_range :: "closure \<Rightarrow> bool" where
  "in_range cl = (0 \<le> currentIndex cl \<and> currentIndex cl \<le> totalImages cl - 1)"

definition all_in_range :: "carousel \<Rightarrow> bool" where
  "all_in_range c = (\<forall>cl \<in> set (closures c). in_range cl)"

text \<open>
  What every listener body is: it leaves the list of closures of the container alone (its
  own closure comes back as the first component) and keeps the index in range.
\<close>

definition handler :: "(closure \<Rightarrow> carousel \<Rightarrow> closure \<times> carousel) \<Rightarrow> bool" where
  "handler h = (\<forall>cl c. closures (snd (h cl c)) = closures c
      \<and> (in_range cl \<longrightarrow> in_range (fst (h cl c))))"

text \<open>
  A container initialized once, with more than one image (\<open>wiring\<close>): one closure,
  its three listeners on the container, its click listener on every dot. In a reachable
  state (\<open>wired\<close>) a frame callback is pending exactly while \<open>isProcessing\<close> is set.
\<close>

definition wiring :: "carousel \<Rightarrow> bool" where
  "wiring c =
     (length (closures c) = 1
      \<and> listeners c = [(OnMouseEnter, 0), (OnMouseMove, 0), (OnMouseLeave, 0)]
      \<and> map dot_click (dotElements c) = map (\<lambda>j. [(0, j)]) [0 ..< length (dotElements c)]
      \<and> data_initialized c \<noteq> None
      \<and> 2 \<le> totalImages (closures c ! 0))"

definition wired :: "carousel \<Rightarrow> bool" where
  "wired c =
     (wiring c \<and> map fst (frames c) = (if isProcessing (closures c ! 0) then [0] else []))"

text \<open>The active styling: \<open>z-10\<close> on an image, \<open>bg-black\<close> on a dot.\<close>

definition active_image :: "elem \<Rightarrow> bool" where
  "active_image e = (''z-10'' \<in> set (classes e))"

definition active_dot :: "dot \<Rightarrow> bool" where
  "active_dot d = (''bg-black'' \<in> set (dot_classes d))"

text \<open>
  Markup and data that agree, as a template renders them: the container is inside a card,
  its image list parses and holds at least as many URLs as the total count says, there
  are at least as many dots, exactly one element carries \<open>data-carousel-image\<close>, with the
  value 0 and on top, no other element is on top, and every dot after the first is
  inactive.
\<close>

definition consistent :: "(string \<Rightarrow> json option) \<Rightarrow> carousel \<Rightarrow> bool" where
  "consistent JSON_parse c0 =
     (in_card c0
      \<and> (case parse_images JSON_parse (dataset_images c0) of
            Inl e \<Rightarrow> False
          | Inr urls \<Rightarrow> total_of (dataset_totalImages c0) \<le> int (length urls))
      \<and> total_of (dataset_totalImages c0) \<le> int (length (dotElements c0))
      \<and> length (filter (\<lambda>e. data_carousel_image e \<noteq> None) (elems c0)) = 1
      \<and> (\<forall>e \<in> set (elems c0).
            if data_carousel_image e = None then \<not> active_image e
            else data_carousel_image e = Some ''0'' \<and> active_image e)
      \<and> (\<forall>d \<in> set (tl (dotElements c0)).
            \<not> active_dot d \<and> ''bg-black/20'' \<in> set (dot_classes d)))"

text \<open>
  The invariant behind "exactly one active image, exactly one active dot". For the
  elements: no two carry the same \<open>data-carousel-image\<close>, every index of \<open>imagesUrl\<close>
  (index 0 alone before the images are loaded) has its element, the active elements are
  those tagged with the current index, and every other tagged element carries \<open>z-0\<close>.
  For the dots: the active dot is the one at the current index, and every other dot
  carries \<open>bg-black/20\<close>.
\<close>

definition images_ok :: "int \<Rightarrow> bool \<Rightarrow> nat \<Rightarrow> elem list \<Rightarrow> bool" where
  "images_ok cur loaded L es =
     ((\<forall>r < length es. \<forall>r' < length es.
          data_carousel_image (es ! r) \<noteq> None
          \<and> data_carousel_image (es ! r) = data_carousel_image (es ! r') \<longrightarrow> r = r')
      \<and> (\<forall>i. 0 \<le> i \<and> i < (if loaded then int L else 1) \<longrightarrow> (\<exists>r < length es. tagged i (es ! r)))
      \<and> (\<not> loaded \<longrightarrow> cur = 0
            \<and> (\<forall>r < length es. data_carousel_image (es ! r) \<noteq> None \<longrightarrow> tagged 0 (es ! r)))
      \<and> (\<forall>r < length es. active_image (es ! r) \<longleftrightarrow> tagged cur (es ! r))
      \<and> (\<forall>r < length es. data_carousel_image (es ! r) \<noteq> None \<and> \<not> tagged cur (es ! r) \<longrightarrow>
            ''z-0'' \<in> set (classes (es ! r))))"

definition dots_ok :: "int \<Rightarrow> dot list \<Rightarrow> bool" where
  "dots_ok cur ds =
     ((\<forall>j < length ds. active_dot (ds ! j) \<longleftrightarrow> int j = cur)
      \<and> (\<forall>j < length ds. int j \<noteq> cur \<longrightarrow> ''bg-black/20'' \<in> set (dot_classes (ds ! j))))"

definition coherent :: "closure \<Rightarrow> carousel \<Rightarrow> bool" where
  "coherent cl c =
     (in_range cl
      \<and> totalImages cl \<le> int (length (imagesUrl cl))
      \<and> totalImages cl \<le> int (length (dotElements c))
      \<and> images_ok (currentIndex cl) (imagesLoaded cl) (length (imagesUrl cl)) (elems c)
      \<and> dots_ok (currentIndex cl) (dotElements c))"

text \<open>\<open>loadImages\<close> called \<open>n\<close> times in a row.\<close>

primrec loadImages_times :: "nat \<Rightarrow> closure \<Rightarrow> carousel \<Rightarrow> closure \<times> carousel" where
  "loadImages_times 0 cl c = (cl, c)"
| "loadImages_times (Suc n) cl c = (let (cl1, c1) = loadImages cl c in loadImages_times n cl1 c1)"

subsection \<open>Example containers\<close>

text \<open>
  A host parser that knows the two image lists of the examples, and a container as a
  template would render it: the primary image on top, three dots, three URLs.
\<close>

definition example_parse :: "string \<Rightarrow> json option" where
  "example_parse s =
     (if s = ''[\"a\", \"b\", \"c\"]'' then Some (JArr [JStr ''a'', JStr ''b'', JStr ''c''])
      else if s = ''[\"a\", \"b\"]'' then Some (JArr [JStr ''a'', JStr ''b''])
      else None)"

definition example_primary :: elem where
  "example_primary =
     \<lparr>src = Some (JStr ''a''), alt = None,
      classes = [''absolute'', ''w-full'', ''h-full'', ''object-cover'', ''z-10''],
      data_carousel_image = Some ''0''\<rparr>"

definition example_dot :: dot where
  "example_dot = \<lparr>dot_classes = [''bg-black/20''], dot_display = [], dot_click = []\<rparr>"

definition example_markup :: carousel where
  "example_markup =
     \<lparr>data_initialized = None, in_card = True,
      dataset_images = Some ''[\"a\", \"b\",  \"c\"] '',
      dataset_totalImages = Some ''3'', elems = [example_primary],
      dotElements = [example_dot, example_dot, example_dot],
      listeners = [], closures = [], frames = []\<rparr>"

definition example_closure :: closure where
  "example_closure =
     \<lparr>imagesUrl = [JStr ''a'', JStr ''b'', JStr ''c''], totalImages = 3, currentIndex = 0,
      imagesLoaded = False, isProcessing = False\<rparr>"

definition example_long :: carousel where
  "example_long =
     init_if_selected example_parse (example_markup\<lparr>dataset_totalImages := Some ''2''\<rparr>)"

definition example_short :: carousel where
  "example_short =
     init_if_selected example_parse (example_markup\<lparr>dataset_images := Some ''[\"a\", \"b\"]''\<rparr>)"

definition example_single :: carousel where
  "example_single = example_markup\<lparr>dataset_totalImages := Some ''1''\<rparr>"

definition example_untotal :: carousel where
  "example_untotal = example_markup\<lparr>dataset_totalImages := None\<rparr>"

text \<open>A container whose image list is not JSON, and a page of three containers.\<close>

definition example_bad :: carousel where
  "example_bad = example_markup\<lparr>dataset_images := Some ''[\"a\", ''\<rparr>"

definition example_page :: page where
  "example_page = \<lparr>containers = [example_markup, example_bad, example_single], console = []\<rparr>"

definition example_scope :: scope where
  "example_scope = \<lparr>descendants = Some [0, 1, 2], self = None\<rparr>"

section \<open>Properties\<close>

subsection \<open>The index stays in range\<close>

lemma foldl_invariant:
  assumes "\<And>s x. I s \<Longrightarrow> I (f s x)" and "I s"
  shows "I (foldl f s xs)"
  using assms(2) by (induction xs arbitrary: s) (simp_all add: assms(1))

lemma loadImages_closures [simp]: "closures (snd (loadImages cl c)) = closures c"
  by (simp add: loadImages_def)

lemma loadImages_index [simp]:
  "currentIndex (fst (loadImages cl c)) = currentIndex cl"
  "totalImages (fst (loadImages cl c)) = totalImages cl"
  by (simp_all add: loadImages_def)

lemma updateCarousel_closures [simp]: "closures (snd (updateCarousel i cl c)) = closures c"
  by (simp add: updateCarousel_def Let_def loadImages_def split: option.splits)

lemma updateCarousel_total [simp]: "totalImages (fst (updateCarousel i cl c)) = totalImages cl"
  by (simp add: updateCarousel_def Let_def loadImages_def split: option.splits prod.splits)

lemma updateCarousel_index:
  "currentIndex (fst (updateCarousel i cl c)) =
     (if i = currentIndex cl \<or> i < 0 \<or> i \<ge> totalImages cl then currentIndex cl else i)"
  by (simp add: updateCarousel_def Let_def loadImages_def split: option.splits prod.splits)

lemma updateCarousel_in_range: "in_range cl \<Longrightarrow> in_range (fst (updateCarousel i cl c))"
  by (simp add: in_range_def updateCarousel_index)

lemma in_range_isProcessing [simp]: "in_range (cl\<lparr>isProcessing := b\<rparr>) = in_range cl"
  by (simp add: in_range_def)

lemma in_range_loadImages [simp]: "in_range (fst (loadImages cl c)) = in_range cl"
  by (simp add: in_range_def)

lemma handler_onMouseEnter: "handler onMouseEnter"
  by (simp add: handler_def onMouseEnter_def)

lemma handler_onMouseLeave: "handler onMouseLeave"
  by (simp add: handler_def onMouseLeave_def updateCarousel_in_range)

lemma handler_onClick: "handler (onClick j)"
  by (simp add: handler_def onClick_def split_beta updateCarousel_in_range)

lemma handler_onMouseMove: "handler (onMouseMove f x k)"
  by (simp add: handler_def onMouseMove_def)

lemma handler_frameCallback: "handler (frameCallback r x)"
  by (simp add: handler_def frameCallback_def split_beta Let_def updateCarousel_in_range)

lemma with_closure_closures:
  "handler h \<Longrightarrow> closures (with_closure k h c) =
     (if k < length (closures c) then (closures c)[k := fst (h (closures c ! k) c)] else closures c)"
  by (simp add: with_closure_def handler_def split_beta Let_def)

lemma with_closure_in_range:
  assumes "handler h" "all_in_range c"
  shows "all_in_range (with_closure k h c)"
proof (cases "k < length (closures c)")
  case True
  then have "in_range (closures c ! k)" using assms(2) by (simp add: all_in_range_def)
  then have "in_range (fst (h (closures c ! k) c))" using assms(1) by (simp add: handler_def)
  then show ?thesis
    using assms True set_update_subset_insert [of "closures c" k]
    by (auto simp: all_in_range_def with_closure_closures)
next
  case False
  then show ?thesis using assms(2) by (simp add: with_closure_def)
qed

lemma run_listener_in_range: "all_in_range c \<Longrightarrow> all_in_range (run_listener ev l c)"
proof -
  assume a: "all_in_range c"
  obtain kind k where l: "l = (kind, k)" by (cases l)
  show ?thesis
    by (cases ev; cases kind)
       (simp_all add: l a with_closure_in_range handler_onMouseEnter handler_onMouseLeave
           handler_onMouseMove)
qed

lemma foldl_in_range:
  assumes "\<And>s x. all_in_range s \<Longrightarrow> all_in_range (f s x)" and "all_in_range s"
  shows "all_in_range (foldl f s xs)"
  using assms by (rule foldl_invariant [where I = all_in_range])

lemma dispatch_in_range:
  assumes "all_in_range c" shows "all_in_range (dispatch ev c)"
proof (cases ev)
  case (Click j)
  have "all_in_range (foldl (\<lambda>c1 (k, index). with_closure k (onClick index) c1) c xs)" for xs
    using assms by (intro foldl_in_range) (simp_all add: split_beta with_closure_in_range handler_onClick)
  then show ?thesis using assms by (simp add: dispatch_def Click)
next
  case (AnimationFrame r)
  have "all_in_range (c\<lparr>frames := []\<rparr>)" using assms by (simp add: all_in_range_def)
  then have "all_in_range (foldl (\<lambda>c1 (k, clientX). with_closure k (frameCallback r clientX) c1)
     (c\<lparr>frames := []\<rparr>) xs)" for xs
    by (intro foldl_in_range) (simp_all add: split_beta with_closure_in_range handler_frameCallback)
  then show ?thesis by (simp add: dispatch_def AnimationFrame)
next
  case MouseEnter
  have "all_in_range (foldl (\<lambda>c1 l. run_listener ev l c1) c xs)" for xs
    using assms by (intro foldl_in_range) (simp_all add: run_listener_in_range)
  then show ?thesis by (simp add: dispatch_def MouseEnter)
next
  case (MouseMove f x)
  have "all_in_range (foldl (\<lambda>c1 l. run_listener ev l c1) c xs)" for xs
    using assms by (intro foldl_in_range) (simp_all add: run_listener_in_range)
  then show ?thesis by (simp add: dispatch_def MouseMove)
next
  case MouseLeave
  have "all_in_range (foldl (\<lambda>c1 l. run_listener ev l c1) c xs)" for xs
    using assms by (intro foldl_in_range) (simp_all add: run_listener_in_range)
  then show ?thesis by (simp add: dispatch_def MouseLeave)
qed

lemma init_one_closures:
  "closures (fst (init_one P c)) = closures c \<or>
   (\<exists>urls n. 2 \<le> n \<and> closures (fst (init_one P c)) = closures c @
      [\<lparr>imagesUrl = urls, totalImages = n, currentIndex = 0, imagesLoaded = False,
        isProcessing = False\<rparr>])"
  by (simp add: init_one_def Let_def split: sum.splits)

lemma init_one_in_range: "all_in_range c \<Longrightarrow> all_in_range (fst (init_one P c))"
  using init_one_closures [of P c] by (auto simp: all_in_range_def in_range_def)

lemma reachable_in_range: "reachable P c0 c \<Longrightarrow> all_in_range c"
proof (induction rule: reachable.induct)
  case start
  then show ?case by (simp add: fresh_def all_in_range_def)
next
  case (init c)
  then show ?case by (simp add: init_if_selected_def init_one_in_range)
next
  case (event c ev)
  from event.IH show ?case by (rule dispatch_in_range)
qed

text \<open>
  Claim C8. In every reachable state of a container, the current index of each of its
  closures lies in \<open>[0, totalImages - 1]\<close>: it starts at 0 with \<open>totalImages \<ge> 2\<close>
  and every event (pointer enter, pointer move and its frame callback, dot click, pointer
  leave) and every run of the initializer keeps the bound.
\<close>

theorem currentIndex_in_range:
  "reachable JSON_parse c0 c \<Longrightarrow> cl \<in> set (closures c) \<Longrightarrow>
     0 \<le> currentIndex cl \<and> currentIndex cl \<le> totalImages cl - 1"
  using reachable_in_range [of JSON_parse c0 c] by (simp add: all_in_range_def in_range_def)

theorem currentIndex_in_range_witness:
  "reachable example_parse example_markup
     (dispatch (Click 2) (init_if_selected example_parse example_markup))
   \<and> example_closure\<lparr>currentIndex := 2, imagesLoaded := True\<rparr>
       \<in> set (closures (dispatch (Click 2) (init_if_selected example_parse example_markup)))
   \<and> 0 \<le> currentIndex (example_closure\<lparr>currentIndex := 2, imagesLoaded := True\<rparr>)
   \<and> currentIndex (example_closure\<lparr>currentIndex := 2, imagesLoaded := True\<rparr>)
       \<le> totalImages (example_closure\<lparr>currentIndex := 2, imagesLoaded := True\<rparr>) - 1"
proof -
  have f: "fresh example_markup"
    by (simp add: fresh_def example_markup_def example_dot_def)
  have r: "reachable example_parse example_markup
     (dispatch (Click 2) (init_if_selected example_parse example_markup))"
    by (intro reachable.event reachable.init reachable.start f)
  have m: "example_closure\<lparr>currentIndex := 2, imagesLoaded := True\<rparr>
       \<in> set (closures (dispatch (Click 2) (init_if_selected example_parse example_markup)))"
    by code_simp
  from currentIndex_in_range [OF r m] r m show ?thesis by simp
qed

subsection \<open>\<open>updateCarousel\<close> on the current index or an index out of range\<close>

text \<open>
  Claim C4. \<open>updateCarousel i\<close> with \<open>i\<close> the current index, \<open>i < 0\<close> or
  \<open>i \<ge> totalImages\<close> returns the closure (current index, \<open>imagesLoaded\<close>) and the
  container (inserted images, classes of images and dots) as they were, in every state.
\<close>

theorem updateCarousel_noop:
  "i = currentIndex cl \<or> i < 0 \<or> i \<ge> totalImages cl \<Longrightarrow> updateCarousel i cl c = (cl, c)"
  by (simp add: updateCarousel_def)

theorem updateCarousel_noop_witness:
  "(3 = currentIndex example_closure \<or> (3::int) < 0 \<or> 3 \<ge> totalImages example_closure)
   \<and> updateCarousel 3 example_closure (init_if_selected example_parse example_markup)
       = (example_closure, init_if_selected example_parse example_markup)"
  using updateCarousel_noop [of 3 example_closure "init_if_selected example_parse example_markup"]
  by (simp add: example_closure_def)

subsection \<open>Decimal rendering is injective\<close>

declare string_of_nat.simps [simp del]
declare collapse_ws.simps [simp del]

lemma digit_val_digit_char: "d < 10 \<Longrightarrow> digit_val (digit_char d) = Some d"
  by (auto simp: digit_char_def digit_val_def)

lemma digits_value_snoc:
  "digits_value (ds @ [ch]) = 10 * digits_value ds + (case digit_val ch of None \<Rightarrow> 0 | Some d \<Rightarrow> d)"
  by (simp add: digits_value_def)

lemma digits_value_string_of_nat: "digits_value (string_of_nat n) = n"
proof (induction n rule: string_of_nat.induct)
  case (1 n)
  show ?case
  proof (cases "n < 10")
    case True
    then have s: "string_of_nat n = [digit_char n]" by (subst string_of_nat.simps) simp
    have "digits_value [digit_char n] = n"
      using digit_val_digit_char [OF True] by (simp add: digits_value_def)
    with s show ?thesis by simp
  next
    case False
    then have s: "string_of_nat n = string_of_nat (n div 10) @ [digit_char (n mod 10)]"
      by (subst string_of_nat.simps) simp
    have d: "digit_val (digit_char (n mod 10)) = Some (n mod 10)"
      by (rule digit_val_digit_char) simp
    have ih: "digits_value (string_of_nat (n div 10)) = n div 10" using 1 False by simp
    have "digits_value (string_of_nat n) = 10 * (n div 10) + n mod 10"
      by (simp only: s digits_value_snoc d ih option.case)
    then show ?thesis by simp
  qed
qed

lemma string_of_nat_inj: "string_of_nat m = string_of_nat n \<Longrightarrow> m = n"
  by (metis digits_value_string_of_nat)

lemma digit_char_not_minus: "digit_char d \<noteq> CHR ''-''"
  by (simp add: digit_char_def)

lemma string_of_nat_hd: "string_of_nat n \<noteq> [] \<and> hd (string_of_nat n) \<noteq> CHR ''-''"
proof (induction n rule: string_of_nat.induct)
  case (1 n)
  show ?case
  proof (cases "n < 10")
    case True
    then show ?thesis by (simp add: string_of_nat.simps [of n] digit_char_not_minus)
  next
    case False
    with 1 show ?thesis by (simp add: string_of_nat.simps [of n])
  qed
qed

lemma string_of_int_inj: "string_of_int i = string_of_int j \<Longrightarrow> i = j"
proof -
  assume e: "string_of_int i = string_of_int j"
  have neq: "CHR ''-'' # string_of_nat m \<noteq> string_of_nat n" for m n
    using string_of_nat_hd [of n] by (cases "string_of_nat n") auto
  show ?thesis
  proof (cases "i < 0"; cases "j < 0")
    assume "i < 0" "j < 0"
    with e have "nat (- i) = nat (- j)" by (simp add: string_of_int_def string_of_nat_inj)
    with \<open>i < 0\<close> \<open>j < 0\<close> show ?thesis by simp
  next
    assume "i < 0" "\<not> j < 0"
    with e neq show ?thesis by (simp add: string_of_int_def)
  next
    assume "\<not> i < 0" "j < 0"
    with e neq [of "nat (- j)" "nat i"] show ?thesis by (simp add: string_of_int_def)
  next
    assume "\<not> i < 0" "\<not> j < 0"
    with e have "nat i = nat j" by (simp add: string_of_int_def string_of_nat_inj)
    with \<open>\<not> i < 0\<close> \<open>\<not> j < 0\<close> show ?thesis by simp
  qed
qed

lemma tagged_inj: "tagged i e \<Longrightarrow> tagged j e \<Longrightarrow> i = j"
  by (simp add: tagged_def string_of_int_inj)

lemma tagged_classes [simp]: "tagged i (e\<lparr>classes := cs\<rparr>) = tagged i e"
  by (simp add: tagged_def)

lemma tagged_new_img [simp]: "tagged i (new_img j url) = (i = j)"
  by (auto simp: tagged_def new_img_def string_of_int_inj)

subsection \<open>\<open>loadImages\<close> runs once\<close>

lemma loadImages_loaded: "imagesLoaded cl \<Longrightarrow> loadImages cl c = (cl, c)"
  by (simp add: loadImages_def)

lemma loadImages_times_loaded: "imagesLoaded cl \<Longrightarrow> loadImages_times n cl c = (cl, c)"
  by (induction n) (simp_all add: loadImages_loaded)

lemma loadImages_sets_flag: "imagesLoaded (fst (loadImages cl c))"
  by (simp add: loadImages_def)

lemma loadImages_times_once: "1 \<le> n \<Longrightarrow> loadImages_times n cl c = loadImages cl c"
proof (cases n)
  case 0
  assume "1 \<le> n"
  with 0 show ?thesis by simp
next
  case (Suc m)
  obtain cl1 c1 where l: "loadImages cl c = (cl1, c1)" by (cases "loadImages cl c")
  then have "imagesLoaded cl1" using loadImages_sets_flag [of cl c] by simp
  then show ?thesis by (simp add: Suc l loadImages_times_loaded)
qed

lemma nth_new: "1 \<le> i \<Longrightarrow> i < n \<Longrightarrow> map f [1 ..< n] ! (i - 1) = f i"
  by (simp add: nth_map)

text \<open>
  Claim C3, as amended. Calling \<open>loadImages\<close> any number of times (once or more) has
  the effect of the first call: that call, when the images were not loaded yet, sets the
  flag and appends one image per index \<open>1 .. L - 1\<close> of \<open>imagesUrl\<close>, the parsed list
  with its falsy entries removed, \<open>L\<close> its length, whatever \<open>totalImages\<close> is; the image
  for index \<open>i\<close> carries \<open>data-carousel-image = i\<close>, the URL at \<open>i\<close>, the positioning
  classes and \<open>z-0\<close>, not \<open>z-10\<close>. A call with the flag set changes nothing.
\<close>

theorem loadImages_idempotent:
  "1 \<le> n \<Longrightarrow>
     loadImages_times n cl c = loadImages cl c
     \<and> (imagesLoaded cl \<longrightarrow> loadImages cl c = (cl, c))
     \<and> (\<not> imagesLoaded cl \<longrightarrow>
          fst (loadImages cl c) = cl\<lparr>imagesLoaded := True\<rparr>
          \<and> (\<exists>new. snd (loadImages cl c) = c\<lparr>elems := elems c @ new\<rparr>
                \<and> length new = length (imagesUrl cl) - 1
                \<and> (\<forall>i. 1 \<le> i \<and> i < length (imagesUrl cl) \<longrightarrow>
                      data_carousel_image (new ! (i - 1)) = Some (string_of_int (int i))
                      \<and> src (new ! (i - 1)) = Some (imagesUrl cl ! i)
                      \<and> {''absolute'', ''w-full'', ''h-full'', ''object-cover'', ''z-0''}
                           \<subseteq> set (classes (new ! (i - 1)))
                      \<and> ''z-10'' \<notin> set (classes (new ! (i - 1))))))"
proof (intro conjI impI)
  assume "1 \<le> n" then show "loadImages_times n cl c = loadImages cl c"
    by (rule loadImages_times_once)
next
  assume "imagesLoaded cl" then show "loadImages cl c = (cl, c)" by (rule loadImages_loaded)
next
  assume "\<not> imagesLoaded cl" then show "fst (loadImages cl c) = cl\<lparr>imagesLoaded := True\<rparr>"
    by (simp add: loadImages_def)
next
  assume n: "\<not> imagesLoaded cl"
  let ?new = "map (\<lambda>i. new_img (int i) (imagesUrl cl ! i)) [1 ..< length (imagesUrl cl)]"
  have "snd (loadImages cl c) = c\<lparr>elems := elems c @ ?new\<rparr>" using n by (simp add: loadImages_def)
  moreover have "length ?new = length (imagesUrl cl) - 1" by simp
  moreover have "\<forall>i. 1 \<le> i \<and> i < length (imagesUrl cl) \<longrightarrow>
                      data_carousel_image (?new ! (i - 1)) = Some (string_of_int (int i))
                      \<and> src (?new ! (i - 1)) = Some (imagesUrl cl ! i)
                      \<and> {''absolute'', ''w-full'', ''h-full'', ''object-cover'', ''z-0''}
                           \<subseteq> set (classes (?new ! (i - 1)))
                      \<and> ''z-10'' \<notin> set (classes (?new ! (i - 1)))"
  proof (intro allI impI)
    fix i assume i: "1 \<le> i \<and> i < length (imagesUrl cl)"
    then have "?new ! (i - 1) = new_img (int i) (imagesUrl cl ! i)"
      by (intro nth_new) simp_all
    then show "data_carousel_image (?new ! (i - 1)) = Some (string_of_int (int i))
                      \<and> src (?new ! (i - 1)) = Some (imagesUrl cl ! i)
                      \<and> {''absolute'', ''w-full'', ''h-full'', ''object-cover'', ''z-0''}
                           \<subseteq> set (classes (?new ! (i - 1)))
                      \<and> ''z-10'' \<notin> set (classes (?new ! (i - 1)))"
      by (simp add: new_img_def)
  qed
  ultimately show "\<exists>new. snd (loadImages cl c) = c\<lparr>elems := elems c @ new\<rparr>
                \<and> length new = length (imagesUrl cl) - 1
                \<and> (\<forall>i. 1 \<le> i \<and> i < length (imagesUrl cl) \<longrightarrow>
                      data_carousel_image (new ! (i - 1)) = Some (string_of_int (int i))
                      \<and> src (new ! (i - 1)) = Some (imagesUrl cl ! i)
                      \<and> {''absolute'', ''w-full'', ''h-full'', ''object-cover'', ''z-0''}
                           \<subseteq> set (classes (new ! (i - 1)))
                      \<and> ''z-10'' \<notin> set (classes (new ! (i - 1))))"
    by blast
qed

theorem loadImages_idempotent_witness:
  "(1::nat) \<le> 2 \<and> \<not> imagesLoaded example_closure
   \<and> loadImages_times 2 example_closure (init_if_selected example_parse example_markup)
       = loadImages example_closure (init_if_selected example_parse example_markup)
   \<and> fst (loadImages example_closure (init_if_selected example_parse example_markup))
       = example_closure\<lparr>imagesLoaded := True\<rparr>"
proof -
  have h: "(1::nat) \<le> 2" by simp
  have n: "\<not> imagesLoaded example_closure" by (simp add: example_closure_def)
  from loadImages_idempotent [OF h, of example_closure
      "init_if_selected example_parse example_markup"] n h
  show ?thesis by simp
qed

text \<open>
  Claim C3 as stated fails where the URL list and the total count differ: with
  \<open>data-total-images = 2\<close> and three URLs, two calls leave two inserted images, for the
  indices 1 and 2, not the one image of the indices \<open>1 .. totalImages - 1\<close>.
\<close>

theorem loadImages_total_counterexample:
  "closures example_long = [example_closure\<lparr>totalImages := 2\<rparr>]
   \<and> elems (snd (loadImages_times 2 (example_closure\<lparr>totalImages := 2\<rparr>) example_long))
       = elems example_long @ [new_img 1 (JStr ''b''), new_img 2 (JStr ''c'')]
   \<and> length (elems (snd (loadImages_times 2 (example_closure\<lparr>totalImages := 2\<rparr>) example_long)))
        - length (elems example_long)
       \<noteq> nat (totalImages (example_closure\<lparr>totalImages := 2\<rparr>) - 1)"
  by code_simp

subsection \<open>Class lists, queries, replacements at a position\<close>

lemma set_set_replace:
  "set (set_replace a b ts) =
     (if a \<in> set ts \<or> b \<in> set ts then insert b (set ts - {a, b}) else set ts)"
  by (induction ts) auto

lemma set_classList_replace:
  "set (classList_replace a b ts) = (if a \<in> set ts then insert b (set ts - {a}) else set ts)"
  by (auto simp: classList_replace_def set_set_replace)

lemma find_first_Some: "find_first P xs = Some p \<Longrightarrow> p < length xs \<and> P (xs ! p)"
  by (induction xs arbitrary: p) (auto split: if_splits)

lemma find_first_None: "find_first P xs = None \<Longrightarrow> r < length xs \<Longrightarrow> \<not> P (xs ! r)"
  by (induction xs arbitrary: r) (auto split: if_splits simp: nth_Cons')

lemma find_first_exists: "r < length xs \<Longrightarrow> P (xs ! r) \<Longrightarrow> \<exists>p. find_first P xs = Some p"
  using find_first_None [of P xs r] by (cases "find_first P xs") auto

lemma map_update_same: "(map f xs)[p := f (xs ! p)] = map f xs"
  by (simp add: map_update [symmetric])

lemma length_elem_replace [simp]: "length (elem_replace p a b es) = length es"
  by (simp add: elem_replace_def)

lemma nth_elem_replace:
  "r < length es \<Longrightarrow> elem_replace p a b es ! r =
     (if r = p then (es ! p)\<lparr>classes := classList_replace a b (classes (es ! p))\<rparr> else es ! r)"
  by (simp add: elem_replace_def nth_list_update)

lemma tag_elem_replace [simp]:
  "map data_carousel_image (elem_replace p a b es) = map data_carousel_image es"
  by (simp add: elem_replace_def map_update map_update_same)

lemma length_dot_replace [simp]: "length (dot_replace i a b ds) = length ds"
  by (simp add: dot_replace_def)

lemma nth_dot_replace:
  "j < length ds \<Longrightarrow> dot_replace i a b ds ! j =
     (if int j = i then (ds ! j)\<lparr>dot_classes := classList_replace a b (dot_classes (ds ! j))\<rparr>
      else ds ! j)"
  by (auto simp: dot_replace_def nth_list_update)

lemma click_dot_replace [simp]: "map dot_click (dot_replace i a b ds) = map dot_click ds"
  by (simp add: dot_replace_def map_update map_update_same)

subsection \<open>\<open>updateCarousel\<close> on another index in range\<close>

lemma pre_index:
  "(if \<not> imagesLoaded cl \<and> 0 < i then loadImages cl c else (cl, c)) = (cl1, c1) \<Longrightarrow>
     currentIndex cl1 = currentIndex cl \<and> totalImages cl1 = totalImages cl"
  by (auto simp: loadImages_def split: if_splits)

lemma updateCarousel_switch_form:
  assumes "i \<noteq> currentIndex cl" and "0 \<le> i" and "i < totalImages cl"
    and pre: "(if \<not> imagesLoaded cl \<and> 0 < i then loadImages cl c else (cl, c)) = (cl1, c1)"
  shows "updateCarousel i cl c =
     (cl1\<lparr>currentIndex := i\<rparr>,
      (let c2 = (case querySelector_image (currentIndex cl) c1 of
                     None \<Rightarrow> c1
                   | Some p \<Rightarrow>
                       c1\<lparr>elems := elem_replace p ''z-10'' ''z-0'' (elems c1),
                          dotElements := dot_replace (currentIndex cl) ''bg-black''
                                           ''bg-black/20'' (dotElements c1)\<rparr>)
       in case querySelector_image i c1 of
            None \<Rightarrow> c2
          | Some q \<Rightarrow>
              c2\<lparr>elems := elem_replace q ''z-0'' ''z-10'' (elems c2),
                 dotElements := dot_replace i ''bg-black/20'' ''bg-black'' (dotElements c2)\<rparr>))"
proof -
  have ci: "currentIndex cl1 = currentIndex cl" using pre_index [OF pre] by simp
  show ?thesis
    using assms(1-3) by (simp add: updateCarousel_def pre ci Let_def cong: option.case_cong)
qed

text \<open>
  Claim C5, as amended. For an index \<open>i\<close> in range and different from the current
  index \<open>c\<close>, \<open>updateCarousel i\<close> first calls \<open>loadImages\<close> when the images are not
  loaded and \<open>i > 0\<close> (the state \<open>(cl1, c1)\<close>), inserts and removes no element after
  that, and sets the current index to \<open>i\<close>. If the container holds an element tagged
  \<open>c\<close>, the first such element loses \<open>z-10\<close> (for \<open>z-0\<close> when it had it) and dot \<open>c\<close>,
  if there is one, loses \<open>bg-black\<close> (for \<open>bg-black/20\<close>). If the container holds an
  element tagged \<open>i\<close>, the first such element gets \<open>z-10\<close> in place of \<open>z-0\<close> and dot
  \<open>i\<close>, if there is one, gets \<open>bg-black\<close> in place of \<open>bg-black/20\<close>. If no element is
  tagged \<open>i\<close>, no element gets \<open>z-10\<close> and dot \<open>i\<close> is left as it was.
\<close>

theorem updateCarousel_switch:
  assumes "i \<noteq> currentIndex cl" and "0 \<le> i" and "i < totalImages cl"
    and "(if \<not> imagesLoaded cl \<and> 0 < i then loadImages cl c else (cl, c)) = (cl1, c1)"
    and "updateCarousel i cl c = (cl2, c2)"
  shows "cl2 = cl1\<lparr>currentIndex := i\<rparr>
     \<and> map data_carousel_image (elems c2) = map data_carousel_image (elems c1)
     \<and> length (dotElements c2) = length (dotElements c1)
     \<and> (\<forall>p. querySelector_image (currentIndex cl) c1 = Some p \<longrightarrow>
           ''z-10'' \<notin> set (classes (elems c2 ! p))
         \<and> (''z-10'' \<in> set (classes (elems c1 ! p)) \<longrightarrow> ''z-0'' \<in> set (classes (elems c2 ! p)))
         \<and> (0 \<le> currentIndex cl \<and> nat (currentIndex cl) < length (dotElements c1) \<longrightarrow>
              ''bg-black'' \<notin> set (dot_classes (dotElements c2 ! nat (currentIndex cl)))
            \<and> (''bg-black'' \<in> set (dot_classes (dotElements c1 ! nat (currentIndex cl))) \<longrightarrow>
                 ''bg-black/20'' \<in> set (dot_classes (dotElements c2 ! nat (currentIndex cl))))))
     \<and> (\<forall>q. querySelector_image i c1 = Some q \<longrightarrow>
           (''z-0'' \<in> set (classes (elems c1 ! q)) \<longrightarrow>
              ''z-10'' \<in> set (classes (elems c2 ! q)) \<and> ''z-0'' \<notin> set (classes (elems c2 ! q)))
         \<and> (nat i < length (dotElements c1)
              \<and> ''bg-black/20'' \<in> set (dot_classes (dotElements c1 ! nat i)) \<longrightarrow>
              ''bg-black'' \<in> set (dot_classes (dotElements c2 ! nat i))
            \<and> ''bg-black/20'' \<notin> set (dot_classes (dotElements c2 ! nat i))))
     \<and> (querySelector_image i c1 = None \<longrightarrow>
           (\<forall>r < length (elems c1). ''z-10'' \<in> set (classes (elems c2 ! r)) \<longrightarrow>
               ''z-10'' \<in> set (classes (elems c1 ! r)))
         \<and> (nat i < length (dotElements c1) \<longrightarrow> dotElements c2 ! nat i = dotElements c1 ! nat i))"
proof -
  let ?cur = "currentIndex cl"
  let ?es = "elems c1" and ?ds = "dotElements c1"
  note form = updateCarousel_switch_form [OF assms(1-4)]
  have cl2: "cl2 = cl1\<lparr>currentIndex := i\<rparr>" using form assms(5) by simp
  have ni: "int (nat i) = i" "nat i \<noteq> nat ?cur \<or> ?cur < 0" using assms(1,2) by auto
  show ?thesis
  proof (cases "querySelector_image ?cur c1")
    case cn: None
    show ?thesis
    proof (cases "querySelector_image i c1")
      case None
      with cn form assms(5) have "c2 = c1" by simp
      with cl2 cn None show ?thesis by simp
    next
      case (Some q)
      with cn form assms(5) have c2: "c2 = c1\<lparr>elems := elem_replace q ''z-0'' ''z-10'' ?es,
          dotElements := dot_replace i ''bg-black/20'' ''bg-black'' ?ds\<rparr>" by simp
      have q: "q < length ?es" using Some find_first_Some [of "tagged i" ?es q]
        by (simp add: querySelector_image_def)
      show ?thesis using cl2 cn Some q ni
        by (simp add: c2 nth_elem_replace nth_dot_replace set_classList_replace)
    qed
  next
    case cs: (Some p)
    have p: "p < length ?es" "tagged ?cur (?es ! p)" using cs find_first_Some [of "tagged ?cur" ?es p]
      by (simp_all add: querySelector_image_def)
    show ?thesis
    proof (cases "querySelector_image i c1")
      case None
      with cs form assms(5) have c2: "c2 = c1\<lparr>elems := elem_replace p ''z-10'' ''z-0'' ?es,
          dotElements := dot_replace ?cur ''bg-black'' ''bg-black/20'' ?ds\<rparr>" by simp
      show ?thesis using cl2 cs None p ni assms(1)
        by (auto simp: c2 nth_elem_replace nth_dot_replace set_classList_replace)
    next
      case (Some q)
      with cs form assms(5) have c2: "c2 = c1\<lparr>
          elems := elem_replace q ''z-0'' ''z-10'' (elem_replace p ''z-10'' ''z-0'' ?es),
          dotElements := dot_replace i ''bg-black/20'' ''bg-black''
             (dot_replace ?cur ''bg-black'' ''bg-black/20'' ?ds)\<rparr>" by simp
      have q: "q < length ?es" "tagged i (?es ! q)" using Some find_first_Some [of "tagged i" ?es q]
        by (simp_all add: querySelector_image_def)
      have pq: "p \<noteq> q" using p q assms(1) tagged_inj by blast
      show ?thesis using cl2 cs Some p q pq ni assms(1)
        by (auto simp: c2 nth_elem_replace nth_dot_replace set_classList_replace)
    qed
  qed
qed

theorem updateCarousel_switch_witness:
  "2 \<noteq> currentIndex example_closure \<and> (0::int) \<le> 2 \<and> 2 < totalImages example_closure
   \<and> fst (updateCarousel 2 example_closure (init_if_selected example_parse example_markup))
       = (fst (loadImages example_closure (init_if_selected example_parse example_markup)))
           \<lparr>currentIndex := 2\<rparr>"
proof -
  let ?c = "init_if_selected example_parse example_markup"
  have a1: "2 \<noteq> currentIndex example_closure" by (simp add: example_closure_def)
  have a2: "(0::int) \<le> 2" by simp
  have a3: "2 < totalImages example_closure" by (simp add: example_closure_def)
  have a4: "(if \<not> imagesLoaded example_closure \<and> (0::int) < 2
             then loadImages example_closure ?c else (example_closure, ?c))
            = (fst (loadImages example_closure ?c), snd (loadImages example_closure ?c))"
    by (simp add: example_closure_def)
  have a5: "updateCarousel 2 example_closure ?c
            = (fst (updateCarousel 2 example_closure ?c), snd (updateCarousel 2 example_closure ?c))"
    by simp
  from updateCarousel_switch [OF a1 a2 a3 a4 a5] a1 a2 a3 show ?thesis by blast
qed

text \<open>
  Claim C5 as stated fails where the container holds no element for the target index: with
  \<open>data-total-images = 3\<close> and two URLs, \<open>updateCarousel 2\<close> sets the current index to 2,
  finds no element tagged 2, promotes neither an image nor dot 2, and leaves no element
  with \<open>z-10\<close>.
\<close>

theorem updateCarousel_promote_counterexample:
  "closures example_short = [example_closure\<lparr>imagesUrl := [JStr ''a'', JStr ''b'']\<rparr>]
   \<and> currentIndex (fst (updateCarousel 2 (example_closure\<lparr>imagesUrl := [JStr ''a'', JStr ''b'']\<rparr>)
         example_short)) = 2
   \<and> querySelector_image 2 (snd (updateCarousel 2
         (example_closure\<lparr>imagesUrl := [JStr ''a'', JStr ''b'']\<rparr>) example_short)) = None
   \<and> ''bg-black'' \<notin> set (dot_classes (dotElements (snd (updateCarousel 2
         (example_closure\<lparr>imagesUrl := [JStr ''a'', JStr ''b'']\<rparr>) example_short)) ! 2))
   \<and> ''z-10'' \<notin> set (concat (map classes (elems (snd (updateCarousel 2
         (example_closure\<lparr>imagesUrl := [JStr ''a'', JStr ''b'']\<rparr>) example_short)))))"
  by code_simp

subsection \<open>Initialization with at most one image\<close>

lemma length_hide_extra_dots [simp]: "length (hide_extra_dots n ds) = length ds"
  by (simp add: hide_extra_dots_def)

lemma nth_hide_extra_dots:
  "j < length ds \<Longrightarrow> hide_extra_dots n ds ! j =
     (if n \<noteq> int (length ds) \<and> n \<le> int j then (ds ! j)\<lparr>dot_display := ''none''\<rparr> else ds ! j)"
  by (simp add: hide_extra_dots_def nth_enumerate_eq)

lemma click_hide_extra_dots [simp]: "map dot_click (hide_extra_dots n ds) = map dot_click ds"
  by (rule nth_equalityI) (simp_all add: nth_hide_extra_dots)

lemma classes_hide_extra_dots [simp]: "map dot_classes (hide_extra_dots n ds) = map dot_classes ds"
  by (rule nth_equalityI) (simp_all add: nth_hide_extra_dots)

lemma length_mark_first_dot [simp]: "length (mark_first_dot ds) = length ds"
  by (simp add: mark_first_dot_def split: list.splits)

lemma click_mark_first_dot [simp]: "map dot_click (mark_first_dot ds) = map dot_click ds"
  by (simp add: mark_first_dot_def split: list.splits)

lemma mark_first_dot_active:
  "ds \<noteq> [] \<Longrightarrow> ''bg-black'' \<in> set (dot_classes (mark_first_dot ds ! 0))
     \<and> ''bg-black/20'' \<notin> set (dot_classes (mark_first_dot ds ! 0))"
  by (cases ds) (auto simp: mark_first_dot_def classList_add_def classList_remove_def)

lemma mark_first_dot_rest: "0 < j \<Longrightarrow> mark_first_dot ds ! j = ds ! j"
  by (cases ds; cases j) (simp_all add: mark_first_dot_def)

lemma init_one_marks [simp]: "data_initialized (fst (init_one P c)) = Some ''true''"
  by (simp add: init_one_def Let_def split: sum.splits)

lemma init_one_single:
  assumes "total_of (dataset_totalImages c) \<le> 1"
  shows "listeners (fst (init_one P c)) = listeners c"
    and "closures (fst (init_one P c)) = closures c"
    and "frames (fst (init_one P c)) = frames c"
    and "elems (fst (init_one P c)) = elems c"
    and "map dot_click (dotElements (fst (init_one P c))) = map dot_click (dotElements c)"
  using assms by (simp_all add: init_one_def Let_def split: sum.splits)

lemma init_one_single_dot:
  assumes "total_of (dataset_totalImages c) \<le> 1" and "in_card c"
    and "parse_images P (dataset_images c) = Inr urls"
  shows "init_one P c =
     (c\<lparr>data_initialized := Some ''true'',
        dotElements := mark_first_dot
          (hide_extra_dots (total_of (dataset_totalImages c)) (dotElements c))\<rparr>, [])"
  using assms by (simp add: init_one_def Let_def)

lemma fresh_dispatch: "fresh c \<Longrightarrow> dispatch ev c = c"
  by (cases ev) (auto simp: fresh_def dispatch_def)

lemma fresh_init_one_single:
  assumes "total_of (dataset_totalImages c) \<le> 1" and "fresh c"
  shows "fresh (fst (init_one P c))"
proof -
  have "map dot_click (dotElements (fst (init_one P c))) = map dot_click (dotElements c)"
    using assms(1) by (rule init_one_single)
  then have "set (map dot_click (dotElements (fst (init_one P c)))) = set (map dot_click (dotElements c))"
    by simp
  then have "dot_click ` set (dotElements (fst (init_one P c))) \<subseteq> {[]}"
    using assms(2) by (auto simp: fresh_def)
  then show ?thesis using assms by (auto simp: fresh_def init_one_single)
qed

lemma parseInt_undefined: "parseInt ''undefined'' = None"
  by code_simp

lemma total_of_unparsed:
  "a = None \<or> (\<exists>s. a = Some s \<and> parseInt s = None) \<Longrightarrow> total_of a = 1"
  by (auto simp: total_of_def parseInt_attr_def parseInt_undefined)

lemma init_one_single_dots:
  assumes "total_of (dataset_totalImages c) \<le> 1" and "in_card c"
    and "parse_images P (dataset_images c) = Inr urls"
  shows "snd (init_one P c) = []"
    and "dotElements c \<noteq> [] \<Longrightarrow>
           ''bg-black'' \<in> set (dot_classes (dotElements (fst (init_one P c)) ! 0))
         \<and> ''bg-black/20'' \<notin> set (dot_classes (dotElements (fst (init_one P c)) ! 0))"
    and "0 < j \<Longrightarrow> j < length (dotElements c) \<Longrightarrow>
           dot_classes (dotElements (fst (init_one P c)) ! j) = dot_classes (dotElements c ! j)
         \<and> dot_display (dotElements (fst (init_one P c)) ! j) = ''none''"
proof -
  note form = init_one_single_dot [OF assms]
  show "snd (init_one P c) = []" by (simp add: form)
  show "''bg-black'' \<in> set (dot_classes (dotElements (fst (init_one P c)) ! 0))
         \<and> ''bg-black/20'' \<notin> set (dot_classes (dotElements (fst (init_one P c)) ! 0))"
    if "dotElements c \<noteq> []"
  proof -
    have "hide_extra_dots (total_of (dataset_totalImages c)) (dotElements c) \<noteq> []"
      using that length_hide_extra_dots [of "total_of (dataset_totalImages c)" "dotElements c"]
      by (metis length_0_conv)
    then show ?thesis by (simp add: form mark_first_dot_active)
  qed
  show "dot_classes (dotElements (fst (init_one P c)) ! j) = dot_classes (dotElements c ! j)
         \<and> dot_display (dotElements (fst (init_one P c)) ! j) = ''none''"
    if "0 < j" "j < length (dotElements c)"
    using that assms(1) by (simp add: form mark_first_dot_rest nth_hide_extra_dots)
qed





subsection \<open>A run of the initializer over a page\<close>

lemma length_init_at [simp]: "length (containers (init_at P p k)) = length (containers p)"
  by (simp add: init_at_def split_beta)

lemma init_at_other: "j \<noteq> k \<Longrightarrow> containers (init_at P p k) ! j = containers p ! j"
  by (simp add: init_at_def split_beta)

lemma init_at_self:
  "k < length (containers p) \<Longrightarrow> containers (init_at P p k) ! k = fst (init_one P (containers p ! k))"
  by (simp add: init_at_def split_beta)

lemma console_init_at: "console (init_at P p k) = console p @ snd (init_one P (containers p ! k))"
  by (simp add: init_at_def split_beta)

lemma length_foldl_init_at [simp]:
  "length (containers (foldl (init_at P) p ks)) = length (containers p)"
  by (induction ks arbitrary: p) simp_all

lemma foldl_init_at_untouched:
  "k \<notin> set ks \<Longrightarrow> containers (foldl (init_at P) p ks) ! k = containers p ! k"
  by (induction ks arbitrary: p) (simp_all add: init_at_other)

lemma init_at_keeps_mark:
  assumes "k < length (containers p)" and "data_initialized (containers p ! k) \<noteq> None"
  shows "data_initialized (containers (init_at P p j) ! k) \<noteq> None"
proof (cases "j = k")
  case True
  with assms(1) show ?thesis by (simp add: init_at_self)
next
  case False
  with assms(2) show ?thesis by (simp add: init_at_other)
qed

lemma foldl_init_at_keeps_mark:
  "k < length (containers p) \<Longrightarrow> data_initialized (containers p ! k) \<noteq> None \<Longrightarrow>
     data_initialized (containers (foldl (init_at P) p ks) ! k) \<noteq> None"
proof (induction ks arbitrary: p)
  case Nil
  then show ?case by simp
next
  case (Cons j ks)
  have "data_initialized (containers (init_at P p j) ! k) \<noteq> None"
    using Cons.prems by (rule init_at_keeps_mark)
  with Cons.IH [of "init_at P p j"] Cons.prems(1) show ?case by simp
qed

lemma foldl_init_at_marks:
  "k \<in> set ks \<Longrightarrow> k < length (containers p) \<Longrightarrow>
     data_initialized (containers (foldl (init_at P) p ks) ! k) \<noteq> None"
proof (induction ks arbitrary: p)
  case Nil
  then show ?case by simp
next
  case (Cons j ks)
  show ?case
  proof (cases "j = k")
    case True
    have "data_initialized (containers (init_at P p k) ! k) \<noteq> None"
      using Cons.prems(2) by (simp add: init_at_self)
    then have "data_initialized (containers (foldl (init_at P) (init_at P p k) ks) ! k) \<noteq> None"
      using Cons.prems(2) by (intro foldl_init_at_keeps_mark) simp_all
    with True show ?thesis by simp
  next
    case False
    with Cons.prems have "k \<in> set ks" by simp
    with Cons.IH [of "init_at P p j"] Cons.prems(2) show ?thesis by simp
  qed
qed

lemma foldl_init_at_nth:
  "distinct ks \<Longrightarrow> j < length (containers p) \<Longrightarrow>
     containers (foldl (init_at P) p ks) ! j =
       (if j \<in> set ks then fst (init_one P (containers p ! j)) else containers p ! j)"
proof (induction ks arbitrary: p)
  case Nil
  then show ?case by simp
next
  case (Cons k ks)
  show ?case
  proof (cases "j = k")
    case True
    then have "j \<notin> set ks" using Cons.prems(1) by simp
    then have "containers (foldl (init_at P) (init_at P p k) ks) ! j = containers (init_at P p k) ! j"
      by (rule foldl_init_at_untouched)
    with True Cons.prems(2) show ?thesis by (simp add: init_at_self)
  next
    case False
    have "containers (foldl (init_at P) (init_at P p k) ks) ! j =
       (if j \<in> set ks then fst (init_one P (containers (init_at P p k) ! j))
        else containers (init_at P p k) ! j)"
      using Cons.prems by (intro Cons.IH) simp_all
    with False show ?thesis by (simp add: init_at_other)
  qed
qed

lemma foldl_init_at_console:
  "distinct ks \<Longrightarrow>
     console (foldl (init_at P) p ks) =
       console p @ concat (map (\<lambda>k. snd (init_one P (containers p ! k))) ks)"
proof (induction ks arbitrary: p)
  case Nil
  then show ?case by simp
next
  case (Cons k ks)
  have "map (\<lambda>j. snd (init_one P (containers (init_at P p k) ! j))) ks =
        map (\<lambda>j. snd (init_one P (containers p ! j))) ks"
  proof (intro map_cong refl)
    fix x assume "x \<in> set ks"
    with Cons.prems have "x \<noteq> k" by auto
    then show "snd (init_one P (containers (init_at P p k) ! x)) = snd (init_one P (containers p ! x))"
      by (simp add: init_at_other)
  qed
  with Cons.IH [of "init_at P p k"] Cons.prems show ?case by (simp add: console_init_at)
qed

lemma select_in_range: "k \<in> set (select s p) \<Longrightarrow> k < length (containers p) \<and> data_initialized (containers p ! k) = None"
  by (auto simp: select_def uninitialized_def split: option.splits if_splits)

lemma select_marked: "k < length (containers p) \<Longrightarrow> data_initialized (containers p ! k) \<noteq> None \<Longrightarrow> k \<notin> set (select s p)"
  using select_in_range [of k s p] by auto

lemma initCarousels_marked_untouched:
  "data_initialized (containers p ! k) \<noteq> None \<Longrightarrow>
     containers (initCarousels P s p) ! k = containers p ! k"
  unfolding initCarousels_def using select_in_range [of k s p]
  by (intro foldl_init_at_untouched) auto

lemma initCarousels_marks:
  "k \<in> set (select s p) \<Longrightarrow> data_initialized (containers (initCarousels P s p) ! k) \<noteq> None"
  unfolding initCarousels_def using select_in_range [of k s p]
  by (intro foldl_init_at_marks) auto

lemma length_initCarousels [simp]:
  "length (containers (initCarousels P s p)) = length (containers p)"
  by (simp add: initCarousels_def)

lemma initCarousels_none_left: "\<not> uninitialized (initCarousels P s p) k"
  if "uninitialized p k \<longrightarrow> k \<in> set (select s p)"
proof (cases "k < length (containers p)")
  case False
  then show ?thesis by (simp add: uninitialized_def)
next
  case True
  show ?thesis
  proof (cases "uninitialized p k")
    case True
    with that have "k \<in> set (select s p)" by simp
    then show ?thesis using initCarousels_marks [of k s p P] by (simp add: uninitialized_def)
  next
    case False
    with \<open>k < length (containers p)\<close> have "data_initialized (containers p ! k) \<noteq> None"
      by (simp add: uninitialized_def)
    then have "containers (initCarousels P s p) ! k = containers p ! k"
      by (rule initCarousels_marked_untouched)
    with False show ?thesis by (simp add: uninitialized_def)
  qed
qed

lemma select_after: "select s (initCarousels P s p) = []"
proof -
  have d: "filter (uninitialized (initCarousels P s p)) ks = []" if "descendants s = Some ks" for ks
  proof -
    have "\<not> uninitialized (initCarousels P s p) k" if "k \<in> set ks" for k
      using that \<open>descendants s = Some ks\<close> by (intro initCarousels_none_left) (simp add: select_def)
    then show ?thesis by (simp add: filter_empty_conv)
  qed
  have e: "\<not> uninitialized (initCarousels P s p) k" if "self s = Some k" for k
    using that by (intro initCarousels_none_left) (simp add: select_def)
  show ?thesis using d e by (auto simp: select_def split: option.splits)
qed

text \<open>
  Claim C7. A run of \<open>initCarousels\<close> leaves every container that carries
  \<open>data-initialized\<close> exactly as it was: its listeners, its closures, its elements and its
  dots. Every container a run processes carries the attribute afterwards, so a second run,
  over whatever scope, is a no-op for it, and running the initializer again over the same
  scope changes nothing in the page.
\<close>

theorem initCarousels_idempotent:
  "(data_initialized (containers p ! k) \<noteq> None \<longrightarrow>
      containers (initCarousels JSON_parse s p) ! k = containers p ! k)
   \<and> (k \<in> set (select s p) \<longrightarrow>
        data_initialized (containers (initCarousels JSON_parse s p) ! k) \<noteq> None
      \<and> containers (initCarousels JSON_parse s2 (initCarousels JSON_parse s p)) ! k
          = containers (initCarousels JSON_parse s p) ! k)
   \<and> initCarousels JSON_parse s (initCarousels JSON_parse s p) = initCarousels JSON_parse s p"
proof (intro conjI impI)
  assume "data_initialized (containers p ! k) \<noteq> None"
  then show "containers (initCarousels JSON_parse s p) ! k = containers p ! k"
    by (rule initCarousels_marked_untouched)
next
  assume "k \<in> set (select s p)"
  then show m: "data_initialized (containers (initCarousels JSON_parse s p) ! k) \<noteq> None"
    by (rule initCarousels_marks)
  then show "containers (initCarousels JSON_parse s2 (initCarousels JSON_parse s p)) ! k
          = containers (initCarousels JSON_parse s p) ! k"
    by (rule initCarousels_marked_untouched)
next
  show "initCarousels JSON_parse s (initCarousels JSON_parse s p) = initCarousels JSON_parse s p"
    by (simp add: initCarousels_def [of JSON_parse s "initCarousels JSON_parse s p"] select_after)
qed

theorem initCarousels_idempotent_witness:
  "0 \<in> set (select example_scope example_page)
   \<and> containers (initCarousels example_parse example_scope
        (initCarousels example_parse example_scope example_page)) ! 0
      = containers (initCarousels example_parse example_scope example_page) ! 0
   \<and> listeners (containers (initCarousels example_parse example_scope example_page) ! 0)
      = [(OnMouseEnter, 0), (OnMouseMove, 0), (OnMouseLeave, 0)]"
proof -
  have h: "0 \<in> set (select example_scope example_page)" by code_simp
  have l: "listeners (containers (initCarousels example_parse example_scope example_page) ! 0)
      = [(OnMouseEnter, 0), (OnMouseMove, 0), (OnMouseLeave, 0)]" by code_simp
  from initCarousels_idempotent [of example_page 0 example_parse example_scope example_scope] h l
  show ?thesis by simp
qed

text \<open>
  Claim C2, as amended. For a container inside a card whose image list does not parse
  (the string is not JSON, the attribute is missing, or the value is not an array), a run
  of \<open>initCarousels\<close> that selects it (each container once, as a scope of the DOM
  does) logs the error and changes nothing in the container
  (dots, elements, listeners, closures) except that it sets \<open>data-initialized\<close>, which
  was done before the parse: the container counts as initialized and no later run retries
  it. The exception is caught, the run returns, and every other container of the page
  ends as its own initialization leaves it, or untouched when the run did not select it.
\<close>

theorem parse_failure_skips:
  assumes "k \<in> set (select s p)" and "distinct (select s p)"
    and "in_card (containers p ! k)"
    and "parse_images JSON_parse (dataset_images (containers p ! k)) = Inl e"
  shows "containers (initCarousels JSON_parse s p) ! k
           = (containers p ! k)\<lparr>data_initialized := Some ''true''\<rparr>
     \<and> ImageParseError e \<in> set (console (initCarousels JSON_parse s p))
     \<and> length (containers (initCarousels JSON_parse s p)) = length (containers p)
     \<and> (\<forall>j < length (containers p). j \<noteq> k \<longrightarrow>
          containers (initCarousels JSON_parse s p) ! j =
            (if j \<in> set (select s p) then fst (init_one JSON_parse (containers p ! j))
             else containers p ! j))"
proof -
  have k: "k < length (containers p)" using assms(1) select_in_range by blast
  have one: "init_one JSON_parse (containers p ! k)
      = ((containers p ! k)\<lparr>data_initialized := Some ''true''\<rparr>, [ImageParseError e])"
    using assms(3,4) by (simp add: init_one_def)
  have "containers (initCarousels JSON_parse s p) ! k = fst (init_one JSON_parse (containers p ! k))"
    using assms(1,2) k by (simp add: initCarousels_def foldl_init_at_nth)
  then have a: "containers (initCarousels JSON_parse s p) ! k
           = (containers p ! k)\<lparr>data_initialized := Some ''true''\<rparr>"
    by (simp add: one)
  have "console (initCarousels JSON_parse s p) = console p @
      concat (map (\<lambda>k. snd (init_one JSON_parse (containers p ! k))) (select s p))"
    using assms(2) by (simp add: initCarousels_def foldl_init_at_console)
  then have b: "ImageParseError e \<in> set (console (initCarousels JSON_parse s p))"
    using assms(1) one by force
  have c: "\<forall>j < length (containers p). j \<noteq> k \<longrightarrow>
          containers (initCarousels JSON_parse s p) ! j =
            (if j \<in> set (select s p) then fst (init_one JSON_parse (containers p ! j))
             else containers p ! j)"
    using assms(2) by (simp add: initCarousels_def foldl_init_at_nth)
  from a b c show ?thesis by simp
qed

theorem parse_failure_skips_witness:
  "1 \<in> set (select example_scope example_page) \<and> distinct (select example_scope example_page)
   \<and> in_card (containers example_page ! 1)
   \<and> parse_images example_parse (dataset_images (containers example_page ! 1)) = Inl SyntaxError
   \<and> containers (initCarousels example_parse example_scope example_page) ! 1
       = example_bad\<lparr>data_initialized := Some ''true''\<rparr>
   \<and> ImageParseError SyntaxError \<in> set (console (initCarousels example_parse example_scope example_page))"
proof -
  have h1: "1 \<in> set (select example_scope example_page)" by code_simp
  have h2: "distinct (select example_scope example_page)" by code_simp
  have h3: "in_card (containers example_page ! 1)" by code_simp
  have h4: "parse_images example_parse (dataset_images (containers example_page ! 1)) = Inl SyntaxError"
    by code_simp
  have e: "containers example_page ! 1 = example_bad" by (simp add: example_page_def)
  from parse_failure_skips [OF h1 h2 h3 h4] h1 h2 h3 h4 e show ?thesis by simp
qed

text \<open>
  Claim C2 as stated fails on "leaves the container uninitialized": the container with the
  malformed list carries \<open>data-initialized = true\<close> after the run. And the error is
  logged only inside a card: outside one, the run returns before the parse.
\<close>

theorem parse_failure_marks_counterexample:
  "parse_images example_parse (dataset_images example_bad) = Inl SyntaxError
   \<and> data_initialized example_bad = None
   \<and> data_initialized (fst (init_one example_parse example_bad)) = Some ''true''
   \<and> data_initialized (containers (initCarousels example_parse example_scope example_page) ! 1)
       = Some ''true''
   \<and> parse_images example_parse (dataset_images (example_bad\<lparr>in_card := False\<rparr>)) = Inl SyntaxError
   \<and> snd (init_one example_parse (example_bad\<lparr>in_card := False\<rparr>)) = []"
  by code_simp

subsection \<open>What the listeners leave alone\<close>

lemma loadImages_frame [simp]:
  "listeners (snd (loadImages cl c)) = listeners c"
  "data_initialized (snd (loadImages cl c)) = data_initialized c"
  "frames (snd (loadImages cl c)) = frames c"
  "dotElements (snd (loadImages cl c)) = dotElements c"
  "isProcessing (fst (loadImages cl c)) = isProcessing cl"
  "imagesUrl (fst (loadImages cl c)) = imagesUrl cl"
  by (simp_all add: loadImages_def)

lemma updateCarousel_frame [simp]:
  "listeners (snd (updateCarousel i cl c)) = listeners c"
  "data_initialized (snd (updateCarousel i cl c)) = data_initialized c"
  "frames (snd (updateCarousel i cl c)) = frames c"
  "map dot_click (dotElements (snd (updateCarousel i cl c))) = map dot_click (dotElements c)"
  "isProcessing (fst (updateCarousel i cl c)) = isProcessing cl"
  "imagesUrl (fst (updateCarousel i cl c)) = imagesUrl cl"
  by (simp_all add: updateCarousel_def Let_def loadImages_def split: option.splits prod.splits)

lemma wired_step:
  assumes "wiring c" and "h (closures c ! 0) c = (cl1, c1)"
    and "listeners c1 = listeners c" and "data_initialized c1 = data_initialized c"
    and "map dot_click (dotElements c1) = map dot_click (dotElements c)"
    and "closures c1 = closures c" and "totalImages cl1 = totalImages (closures c ! 0)"
    and "map fst (frames c1) = (if isProcessing cl1 then [0] else [])"
  shows "with_closure 0 h c = c1\<lparr>closures := [cl1]\<rparr>" and "wired (with_closure 0 h c)"
proof -
  have l: "length (dotElements c1) = length (dotElements c)"
    using assms(5) by (metis length_map)
  show w: "with_closure 0 h c = c1\<lparr>closures := [cl1]\<rparr>"
    using assms(1,2,6) by (cases "closures c") (simp_all add: wiring_def with_closure_def)
  show "wired (with_closure 0 h c)"
    using assms(1,3,4,5,7,8) l by (simp add: w wired_def wiring_def)
qed

lemma wired_frames: "wired c \<Longrightarrow> frames c = [] \<longleftrightarrow> \<not> isProcessing (closures c ! 0)"
  by (auto simp: wired_def split: if_splits)

lemma wired_onMouseEnter: "wired c \<Longrightarrow> wired (with_closure 0 onMouseEnter c)"
  by (rule wired_step(2) [where ?cl1.0 = "fst (loadImages (closures c ! 0) c)"
        and ?c1.0 = "snd (loadImages (closures c ! 0) c)"])
     (simp_all add: onMouseEnter_def wired_def)

lemma wired_onMouseLeave: "wired c \<Longrightarrow> wired (with_closure 0 onMouseLeave c)"
  by (rule wired_step(2) [where ?cl1.0 = "fst (updateCarousel 0 (closures c ! 0) c)"
        and ?c1.0 = "snd (updateCarousel 0 (closures c ! 0) c)"])
     (simp_all add: onMouseLeave_def wired_def)

lemma wired_onClick: "wired c \<Longrightarrow> wired (with_closure 0 (onClick j) c)"
  by (rule wired_step(2) [where ?cl1.0 = "fst (onClick j (closures c ! 0) c)"
        and ?c1.0 = "snd (onClick j (closures c ! 0) c)"])
     (simp_all add: onClick_def wired_def split_beta)

lemma wired_onMouseMove: "wired c \<Longrightarrow> wired (with_closure 0 (onMouseMove f x 0) c)"
  by (rule wired_step(2) [where ?cl1.0 = "fst (onMouseMove f x 0 (closures c ! 0) c)"
        and ?c1.0 = "snd (onMouseMove f x 0 (closures c ! 0) c)"])
     (auto simp: onMouseMove_def wired_def)

lemma wired_frameCallback:
  "wired c \<Longrightarrow> wired (with_closure 0 (frameCallback r x) (c\<lparr>frames := []\<rparr>))"
  by (rule wired_step(2) [where ?cl1.0 = "fst (frameCallback r x (closures c ! 0) (c\<lparr>frames := []\<rparr>))"
        and ?c1.0 = "snd (frameCallback r x (closures c ! 0) (c\<lparr>frames := []\<rparr>))"])
     (simp_all add: frameCallback_def wired_def wiring_def split_beta Let_def)

lemma length_add_click_listeners [simp]: "length (add_click_listeners k ds) = length ds"
  by (simp add: add_click_listeners_def)

lemma nth_add_click_listeners:
  "j < length ds \<Longrightarrow>
     add_click_listeners k ds ! j = (ds ! j)\<lparr>dot_click := dot_click (ds ! j) @ [(k, j)]\<rparr>"
  by (simp add: add_click_listeners_def nth_enumerate_eq)

lemma classes_add_click_listeners [simp]:
  "map dot_classes (add_click_listeners k ds) = map dot_classes ds"
  by (rule nth_equalityI) (simp_all add: nth_add_click_listeners)

lemma click_add_click_listeners:
  assumes "\<forall>d \<in> set ds. dot_click d = []"
  shows "map dot_click (add_click_listeners k ds) = map (\<lambda>j. [(k, j)]) [0 ..< length ds]"
  using assms by (intro nth_equalityI) (simp_all add: nth_add_click_listeners)

lemma hide_extra_dots_no_click:
  assumes "\<forall>d \<in> set ds. dot_click d = []"
  shows "\<forall>d \<in> set (hide_extra_dots n ds). dot_click d = []"
proof -
  have "dot_click ` set (hide_extra_dots n ds) = set (map dot_click (hide_extra_dots n ds))"
    by (simp only: set_map)
  also have "\<dots> = set (map dot_click ds)" by (simp only: click_hide_extra_dots)
  also have "\<dots> = dot_click ` set ds" by (simp only: set_map)
  finally show ?thesis using assms by force
qed

text \<open>The container that the interactive branch of \<open>init_one\<close> returns.\<close>

lemma init_one_interactive:
  assumes "in_card c" and "parse_images P (dataset_images c) = Inr urls"
    and "1 < total_of (dataset_totalImages c)"
  shows "init_one P c =
     (c\<lparr>data_initialized := Some ''true'',
        closures := closures c @
          [\<lparr>imagesUrl = urls, totalImages = total_of (dataset_totalImages c), currentIndex = 0,
            imagesLoaded = False, isProcessing = False\<rparr>],
        listeners := listeners c @ [(OnMouseEnter, length (closures c)),
          (OnMouseMove, length (closures c)), (OnMouseLeave, length (closures c))],
        dotElements := mark_first_dot (add_click_listeners (length (closures c))
          (hide_extra_dots (total_of (dataset_totalImages c)) (dotElements c)))\<rparr>, [])"
  using assms by (simp add: init_one_def Let_def)

lemma init_one_wired:
  assumes "fresh c"
  shows "fresh (fst (init_one P c)) \<or> wired (fst (init_one P c))"
proof (cases "in_card c")
  case False
  with assms show ?thesis by (simp add: init_one_def fresh_def)
next
  case True
  show ?thesis
  proof (cases "parse_images P (dataset_images c)")
    case (Inl e)
    with True assms show ?thesis by (simp add: init_one_def fresh_def)
  next
    case (Inr urls)
    show ?thesis
    proof (cases "total_of (dataset_totalImages c) \<le> 1")
      case le: True
      then show ?thesis using assms by (simp add: fresh_init_one_single)
    next
      case False
      then have gt: "1 < total_of (dataset_totalImages c)" by simp
      note form = init_one_interactive [OF True Inr gt]
      have nc: "\<forall>d \<in> set (hide_extra_dots (total_of (dataset_totalImages c)) (dotElements c)).
          dot_click d = []"
        using assms by (intro hide_extra_dots_no_click) (simp add: fresh_def)
      have "wired (fst (init_one P c))"
        using assms gt click_add_click_listeners [OF nc, of 0]
        by (simp add: form wired_def wiring_def fresh_def)
      then show ?thesis ..
    qed
  qed
qed

lemma wired_dispatch_form:
  assumes "wired c"
  shows "dispatch ev c =
     (case ev of
        MouseEnter \<Rightarrow> with_closure 0 onMouseEnter c
      | Click j \<Rightarrow> if j < length (dotElements c) then with_closure 0 (onClick j) c else c
      | MouseMove f x \<Rightarrow> with_closure 0 (onMouseMove f x 0) c
      | MouseLeave \<Rightarrow> with_closure 0 onMouseLeave c
      | AnimationFrame r \<Rightarrow>
          (case frames c of
             [] \<Rightarrow> c
           | (k, x) # _ \<Rightarrow> with_closure 0 (frameCallback r x) (c\<lparr>frames := []\<rparr>)))"
proof (cases ev)
  case (Click j)
  have "dot_click (dotElements c ! j) = [(0, j)]" if "j < length (dotElements c)"
  proof -
    have "map dot_click (dotElements c) ! j = map (\<lambda>j. [(0, j)]) [0 ..< length (dotElements c)] ! j"
      using assms by (simp add: wired_def wiring_def)
    with that show ?thesis by simp
  qed
  then show ?thesis by (simp add: dispatch_def Click)
next
  case (AnimationFrame r)
  show ?thesis
  proof (cases "frames c")
    case Nil
    then show ?thesis by (simp add: dispatch_def AnimationFrame)
  next
    case (Cons a fs)
    then have "map fst (frames c) = [0]" using assms by (auto simp: wired_def split: if_splits)
    with Cons have "fs = []" "fst a = 0" by simp_all
    with Cons show ?thesis by (cases a) (simp add: dispatch_def AnimationFrame)
  qed
qed (use assms in \<open>simp_all add: dispatch_def wired_def wiring_def\<close>)

lemma wired_dispatch: "wired c \<Longrightarrow> wired (dispatch ev c)"
  by (cases ev; cases "frames c")
    (auto simp: wired_dispatch_form wired_onMouseEnter wired_onMouseLeave wired_onClick
      wired_onMouseMove wired_frameCallback)

lemma wired_init: "wired c \<Longrightarrow> init_if_selected P c = c"
  by (auto simp: init_if_selected_def wired_def wiring_def)

lemma reachable_wired: "reachable P c0 c \<Longrightarrow> fresh c \<or> wired c"
proof (induction rule: reachable.induct)
  case start
  then show ?case by simp
next
  case (init c)
  show ?case
  proof (cases "fresh c \<and> data_initialized c = None")
    case True
    then show ?thesis using init_one_wired [of c P] by (simp add: init_if_selected_def)
  next
    case False
    with init.IH have "init_if_selected P c = c"
      using wired_init [of c P] by (auto simp: init_if_selected_def)
    with init.IH show ?thesis by simp
  qed
next
  case (event c ev)
  then show ?case by (auto simp: fresh_dispatch wired_dispatch)
qed

subsection \<open>The pointer-zone mapping\<close>

lemma loadImages_isProcessing:
  "loadImages (cl\<lparr>isProcessing := b\<rparr>) c =
     (case loadImages cl c of (cl1, c1) \<Rightarrow> (cl1\<lparr>isProcessing := b\<rparr>, c1))"
  by (simp add: loadImages_def)

lemma loadImages_closures_update:
  "loadImages cl (c\<lparr>closures := cs\<rparr>) =
     (case loadImages cl c of (cl1, c1) \<Rightarrow> (cl1, c1\<lparr>closures := cs\<rparr>))"
  by (simp add: loadImages_def)

lemma updateCarousel_isProcessing:
  "updateCarousel i (cl\<lparr>isProcessing := b\<rparr>) c =
     (case updateCarousel i cl c of (cl1, c1) \<Rightarrow> (cl1\<lparr>isProcessing := b\<rparr>, c1))"
  by (simp add: updateCarousel_def Let_def loadImages_def querySelector_image_def
      split: option.splits)

lemma updateCarousel_closures_update:
  "updateCarousel i cl (c\<lparr>closures := cs\<rparr>) =
     (case updateCarousel i cl c of (cl1, c1) \<Rightarrow> (cl1, c1\<lparr>closures := cs\<rparr>))"
  by (simp add: updateCarousel_def Let_def loadImages_def querySelector_image_def
      split: option.splits)

lemma closure_isProcessing_same: "isProcessing cl = b \<Longrightarrow> cl\<lparr>isProcessing := b\<rparr> = cl"
  by simp



subsection \<open>Exactly one: counting and positions\<close>

lemma filter_one_exists: "length (filter P xs) = 1 \<Longrightarrow> \<exists>r < length xs. P (xs ! r)"
proof -
  assume "length (filter P xs) = 1"
  then have "filter P xs \<noteq> []" by auto
  then obtain x where "x \<in> set xs" "P x" by (auto simp: filter_empty_conv)
  then show ?thesis by (auto simp: in_set_conv_nth)
qed

lemma filter_one_unique:
  "length (filter P xs) = 1 \<Longrightarrow> r < length xs \<Longrightarrow> r' < length xs \<Longrightarrow>
     P (xs ! r) \<Longrightarrow> P (xs ! r') \<Longrightarrow> r = r'"
proof (induction xs arbitrary: r r')
  case Nil
  then show ?case by simp
next
  case (Cons x xs)
  show ?case
  proof (cases "P x")
    case True
    with Cons.prems(1) have "filter P xs = []" by simp
    then have no: "\<forall>y \<in> set xs. \<not> P y" by (simp add: filter_empty_conv)
    have z: "k = 0" if "k < length (x # xs)" "P ((x # xs) ! k)" for k
    proof (cases k)
      case 0
      then show ?thesis .
    next
      case (Suc m)
      with that have "m < length xs" "P (xs ! m)" by simp_all
      then have "xs ! m \<in> set xs" by simp
      with no \<open>P (xs ! m)\<close> show ?thesis by blast
    qed
    from z [OF Cons.prems(2,4)] z [OF Cons.prems(3,5)] show ?thesis by simp
  next
    case False
    have s: "\<exists>m. k = Suc m" if "P ((x # xs) ! k)" for k
      using that False by (cases k) simp_all
    from s [OF Cons.prems(4)] obtain k where k: "r = Suc k" ..
    from s [OF Cons.prems(5)] obtain k' where k': "r' = Suc k'" ..
    have 1: "length (filter P xs) = 1" using Cons.prems(1) False by simp
    have 2: "k < length xs" "k' < length xs" using Cons.prems(2,3) k k' by simp_all
    have 3: "P (xs ! k)" "P (xs ! k')" using Cons.prems(4,5) k k' by simp_all
    have "k = k'" using 1 2 3 by (rule Cons.IH)
    with k k' show ?thesis by simp
  qed
qed

lemma filter_one_intro:
  "r < length xs \<Longrightarrow> P (xs ! r) \<Longrightarrow> (\<And>r'. r' < length xs \<Longrightarrow> P (xs ! r') \<Longrightarrow> r' = r) \<Longrightarrow>
     length (filter P xs) = 1"
proof (induction xs arbitrary: r)
  case Nil
  then show ?case by simp
next
  case (Cons x xs)
  show ?case
  proof (cases r)
    case 0
    have "\<not> P (xs ! k)" if "k < length xs" for k
      using Cons.prems(3) [of "Suc k"] that 0 by auto
    then have "filter P xs = []" by (auto simp: filter_empty_conv in_set_conv_nth)
    with 0 Cons.prems(2) show ?thesis by simp
  next
    case (Suc k)
    have "\<not> P x" using Cons.prems(3) [of 0] Suc by auto
    moreover have "length (filter P xs) = 1"
    proof (rule Cons.IH [of k])
      show "k < length xs" using Cons.prems(1) Suc by simp
      show "P (xs ! k)" using Cons.prems(2) Suc by simp
      show "r' = k" if "r' < length xs" "P (xs ! r')" for r'
        using Cons.prems(3) [of "Suc r'"] that Suc by simp
    qed
    ultimately show ?thesis by simp
  qed
qed

lemma string_of_int_0: "string_of_int 0 = ''0''"
  by code_simp

lemma tagged_0: "tagged 0 e \<longleftrightarrow> data_carousel_image e = Some ''0''"
  by (simp add: tagged_def string_of_int_0)

subsection \<open>The image invariant under \<open>loadImages\<close>\<close>

lemma nth_loaded:
  "r < length es + (L - 1) \<Longrightarrow>
     (es @ map f [1 ..< L]) ! r = (if r < length es then es ! r else f (r - length es + 1))"
  by (simp add: nth_append)

lemma new_img_tag [simp]: "data_carousel_image (new_img i url) = Some (string_of_int i)"
  by (simp add: new_img_def)

lemma new_img_classes [simp]:
  "\<not> active_image (new_img i url)" "''z-0'' \<in> set (classes (new_img i url))"
  by (simp_all add: new_img_def active_image_def)

lemma images_ok_load:
  assumes ok: "images_ok cur False L es"
  shows "images_ok cur True L (es @ map (\<lambda>i. new_img (int i) (urls ! i)) [1 ..< L])"
proof -
  let ?f = "\<lambda>i. new_img (int i) (urls ! i)"
  define es' where "es' = es @ map ?f [1 ..< L]"
  let ?n = "length es"
  have len: "length es' = ?n + (L - 1)" by (simp add: es'_def)
  have cur: "cur = 0" using ok by (simp add: images_ok_def)
  have U: "\<And>r r'. r < ?n \<Longrightarrow> r' < ?n \<Longrightarrow> data_carousel_image (es ! r) \<noteq> None \<Longrightarrow>
      data_carousel_image (es ! r) = data_carousel_image (es ! r') \<Longrightarrow> r = r'"
    using ok by (simp add: images_ok_def)
  have E: "\<exists>r < ?n. tagged 0 (es ! r)" using ok by (simp add: images_ok_def)
  have D: "\<And>r. r < ?n \<Longrightarrow> data_carousel_image (es ! r) \<noteq> None \<Longrightarrow> tagged 0 (es ! r)"
    using ok by (simp add: images_ok_def)
  have A: "\<And>r. r < ?n \<Longrightarrow> active_image (es ! r) \<longleftrightarrow> tagged 0 (es ! r)"
    using ok cur by (simp add: images_ok_def)
  have old: "es' ! r = es ! r" if "r < ?n" for r using that by (simp add: es'_def nth_append)
  have new: "es' ! r = ?f (r - ?n + 1)" if "?n \<le> r" "r < ?n + (L - 1)" for r
    using that nth_loaded [of r es L ?f] by (simp add: es'_def)
  have newtag: "tagged i (es' ! r) \<longleftrightarrow> i = int (r - ?n + 1)" if "?n \<le> r" "r < ?n + (L - 1)" for r i
    using new [OF that] by simp
  have U': "r = r'" if "r < ?n + (L - 1)" "r' < ?n + (L - 1)"
      "data_carousel_image (es' ! r) \<noteq> None"
      "data_carousel_image (es' ! r) = data_carousel_image (es' ! r')" for r r'
  proof (cases "r < ?n"; cases "r' < ?n")
    assume a: "r < ?n" "r' < ?n"
    with that show ?thesis using U [of r r'] by (simp add: old)
  next
    assume a: "r < ?n" "\<not> r' < ?n"
    then have "tagged 0 (es ! r)" using D [of r] that(3) by (simp add: old)
    then have "tagged 0 (es' ! r')" using that(4) a by (simp add: old tagged_def)
    then show ?thesis using newtag [of r' 0] a that(2) by simp
  next
    assume a: "\<not> r < ?n" "r' < ?n"
    then have "data_carousel_image (es ! r') \<noteq> None" using that(3,4) by (simp add: old)
    then have "tagged 0 (es ! r')" using D [of r'] a by simp
    then have "tagged 0 (es' ! r)" using that(4) a by (simp add: old tagged_def)
    then show ?thesis using newtag [of r 0] a that(1) by simp
  next
    assume a: "\<not> r < ?n" "\<not> r' < ?n"
    have "tagged (int (r - ?n + 1)) (es' ! r)" using newtag [of r] a that(1) by simp
    then have "tagged (int (r - ?n + 1)) (es' ! r')" using that(4) by (simp add: tagged_def)
    then have "int (r - ?n + 1) = int (r' - ?n + 1)" using newtag [of r'] a that(2) by simp
    with a show ?thesis by simp
  qed
  have E': "\<exists>r < ?n + (L - 1). tagged i (es' ! r)" if "0 \<le> i" "i < int L" for i
  proof (cases "i = 0")
    case True
    from E obtain r where "r < ?n" "tagged 0 (es ! r)" by blast
    then have "r < ?n + (L - 1) \<and> tagged i (es' ! r)" using True by (simp add: old)
    then show ?thesis by blast
  next
    case False
    let ?r = "?n + nat i - 1"
    have "?n \<le> ?r" "?r < ?n + (L - 1)" "i = int (?r - ?n + 1)" using that False by auto
    then have "?r < ?n + (L - 1) \<and> tagged i (es' ! ?r)" using newtag [of ?r i] by blast
    then show ?thesis by blast
  qed
  have A': "active_image (es' ! r) \<longleftrightarrow> tagged cur (es' ! r)" if "r < ?n + (L - 1)" for r
  proof (cases "r < ?n")
    case True
    then show ?thesis using A [of r] cur by (simp add: old)
  next
    case False
    then have "es' ! r = ?f (r - ?n + 1)" using new [of r] that by simp
    then show ?thesis using cur by simp
  qed
  have C': "''z-0'' \<in> set (classes (es' ! r))"
    if "r < ?n + (L - 1)" "data_carousel_image (es' ! r) \<noteq> None" "\<not> tagged cur (es' ! r)" for r
  proof (cases "r < ?n")
    case True
    then show ?thesis using D [of r] that cur by (simp add: old)
  next
    case False
    then have "es' ! r = ?f (r - ?n + 1)" using new [of r] that by simp
    then show ?thesis by simp
  qed
  have c1: "\<forall>r < length es'. \<forall>r' < length es'.
          data_carousel_image (es' ! r) \<noteq> None
          \<and> data_carousel_image (es' ! r) = data_carousel_image (es' ! r') \<longrightarrow> r = r'"
    unfolding len using U' by blast
  have c2: "\<forall>i. 0 \<le> i \<and> i < (if True then int L else 1) \<longrightarrow> (\<exists>r < length es'. tagged i (es' ! r))"
    unfolding len using E' by simp
  have c3: "\<not> True \<longrightarrow> cur = 0
            \<and> (\<forall>r < length es'. data_carousel_image (es' ! r) \<noteq> None \<longrightarrow> tagged 0 (es' ! r))"
    by simp
  have c4: "\<forall>r < length es'. active_image (es' ! r) \<longleftrightarrow> tagged cur (es' ! r)"
    unfolding len using A' by blast
  have c5: "\<forall>r < length es'. data_carousel_image (es' ! r) \<noteq> None \<and> \<not> tagged cur (es' ! r) \<longrightarrow>
            ''z-0'' \<in> set (classes (es' ! r))"
    unfolding len using C' by blast
  have "images_ok cur True L es'"
    unfolding images_ok_def by (intro conjI c1 c2 c3 c4 c5)
  then show ?thesis by (simp only: es'_def)
qed

subsection \<open>The image invariant under a switch\<close>

lemma images_ok_query:
  assumes "images_ok cur True L es" and "0 \<le> i" and "i < int L"
  shows "\<exists>q. find_first (tagged i) es = Some q"
proof -
  have "\<exists>r < length es. tagged i (es ! r)" using assms by (simp add: images_ok_def)
  then obtain r where "r < length es" "tagged i (es ! r)" by blast
  then show ?thesis by (rule find_first_exists)
qed

lemma active_replace_z10:
  "\<not> active_image (e\<lparr>classes := classList_replace ''z-10'' ''z-0'' (classes e)\<rparr>)"
  by (simp add: active_image_def set_classList_replace)

lemma z0_replace_z10:
  "active_image e \<Longrightarrow>
     ''z-0'' \<in> set (classList_replace ''z-10'' ''z-0'' (classes e))"
  by (simp add: active_image_def set_classList_replace)

lemma active_replace_z0:
  "''z-0'' \<in> set (classes e) \<Longrightarrow>
     active_image (e\<lparr>classes := classList_replace ''z-0'' ''z-10'' (classes e)\<rparr>)"
  by (simp add: active_image_def set_classList_replace)

lemma images_ok_switch:
  assumes ok: "images_ok cur True L es" and ne: "i \<noteq> cur"
    and p: "find_first (tagged cur) es = Some p" and q: "find_first (tagged i) es = Some q"
  shows "images_ok i True L (elem_replace q ''z-0'' ''z-10'' (elem_replace p ''z-10'' ''z-0'' es))"
proof -
  define es' where "es' = elem_replace q ''z-0'' ''z-10'' (elem_replace p ''z-10'' ''z-0'' es)"
  let ?n = "length es"
  let ?dem = "\<lambda>e. e\<lparr>classes := classList_replace ''z-10'' ''z-0'' (classes e)\<rparr>"
  let ?pro = "\<lambda>e. e\<lparr>classes := classList_replace ''z-0'' ''z-10'' (classes e)\<rparr>"
  have len: "length es' = ?n" by (simp add: es'_def)
  have pp: "p < ?n" "tagged cur (es ! p)" using find_first_Some [OF p] by simp_all
  have qq: "q < ?n" "tagged i (es ! q)" using find_first_Some [OF q] by simp_all
  have pq: "p \<noteq> q" using pp(2) qq(2) ne tagged_inj by blast
  have U: "\<And>r r'. r < ?n \<Longrightarrow> r' < ?n \<Longrightarrow> data_carousel_image (es ! r) \<noteq> None \<Longrightarrow>
      data_carousel_image (es ! r) = data_carousel_image (es ! r') \<Longrightarrow> r = r'"
    using ok by (simp add: images_ok_def)
  have A: "\<And>r. r < ?n \<Longrightarrow> active_image (es ! r) \<longleftrightarrow> tagged cur (es ! r)"
    using ok by (simp add: images_ok_def)
  have C: "\<And>r. r < ?n \<Longrightarrow> data_carousel_image (es ! r) \<noteq> None \<Longrightarrow> \<not> tagged cur (es ! r) \<Longrightarrow>
      ''z-0'' \<in> set (classes (es ! r))"
    using ok by (simp add: images_ok_def)
  have at_q: "es' ! q = ?pro (es ! q)"
    using qq(1) pq by (simp add: es'_def nth_elem_replace)
  have at_p: "es' ! p = ?dem (es ! p)"
    using pp(1) pq by (simp add: es'_def nth_elem_replace)
  have other: "es' ! r = es ! r" if "r < ?n" "r \<noteq> p" "r \<noteq> q" for r
    using that by (simp add: es'_def nth_elem_replace)
  have tag: "data_carousel_image (es' ! r) = data_carousel_image (es ! r)" if "r < ?n" for r
    using that at_p at_q other [of r] by (cases "r = p"; cases "r = q") simp_all
  have tg: "tagged j (es' ! r) = tagged j (es ! r)" if "r < ?n" for r j
    using tag [OF that] by (simp add: tagged_def)
  have only_p: "r = p" if "r < ?n" "tagged cur (es ! r)" for r
  proof -
    have "data_carousel_image (es ! r) = data_carousel_image (es ! p)"
      using that(2) pp(2) by (simp add: tagged_def)
    moreover have "data_carousel_image (es ! r) \<noteq> None" using that(2) by (simp add: tagged_def)
    ultimately show ?thesis using U [of r p] that(1) pp(1) by blast
  qed
  have only_q: "r = q" if "r < ?n" "tagged i (es ! r)" for r
  proof -
    have "data_carousel_image (es ! r) = data_carousel_image (es ! q)"
      using that(2) qq(2) by (simp add: tagged_def)
    moreover have "data_carousel_image (es ! r) \<noteq> None" using that(2) by (simp add: tagged_def)
    ultimately show ?thesis using U [of r q] that(1) qq(1) by blast
  qed
  have q_not_cur: "\<not> tagged cur (es ! q)" using only_p [of q] qq(1) pq by blast
  have q_tag: "data_carousel_image (es ! q) \<noteq> None" using qq(2) by (simp add: tagged_def)
  have q_z0: "''z-0'' \<in> set (classes (es ! q))" using C [OF qq(1) q_tag q_not_cur] .
  have p_act: "active_image (es ! p)" using A [OF pp(1)] pp(2) by simp
  have c1: "\<forall>r < length es'. \<forall>r' < length es'.
          data_carousel_image (es' ! r) \<noteq> None
          \<and> data_carousel_image (es' ! r) = data_carousel_image (es' ! r') \<longrightarrow> r = r'"
    unfolding len using U tag by metis
  have "\<forall>i. 0 \<le> i \<and> i < (if True then int L else 1) \<longrightarrow> (\<exists>r < ?n. tagged i (es ! r))"
    using ok by (simp add: images_ok_def)
  then have c2: "\<forall>i. 0 \<le> i \<and> i < (if True then int L else 1) \<longrightarrow>
      (\<exists>r < length es'. tagged i (es' ! r))"
    unfolding len using tg by metis
  have c3: "\<not> True \<longrightarrow> i = 0
            \<and> (\<forall>r < length es'. data_carousel_image (es' ! r) \<noteq> None \<longrightarrow> tagged 0 (es' ! r))"
    by simp
  have a4: "active_image (es' ! r) \<longleftrightarrow> tagged i (es' ! r)" if "r < ?n" for r
  proof (cases "r = q")
    case True
    then show ?thesis using qq(2) q_z0 by (simp add: at_q active_replace_z0)
  next
    case nq: False
    show ?thesis
    proof (cases "r = p")
      case True
      have "\<not> tagged i (es ! p)" using only_q [of p] pp(1) pq by blast
      with True show ?thesis by (simp add: at_p active_replace_z10)
    next
      case False
      have "\<not> tagged cur (es ! r)" using only_p [OF that] False by blast
      then have "\<not> active_image (es ! r)" using A [OF that] by simp
      moreover have "\<not> tagged i (es ! r)" using only_q [OF that] nq by blast
      ultimately show ?thesis using other [OF that False nq] by simp
    qed
  qed
  then have c4: "\<forall>r < length es'. active_image (es' ! r) \<longleftrightarrow> tagged i (es' ! r)"
    unfolding len by blast
  have a5: "''z-0'' \<in> set (classes (es' ! r))"
    if "r < ?n" "data_carousel_image (es' ! r) \<noteq> None" "\<not> tagged i (es' ! r)" for r
  proof (cases "r = p")
    case True
    then show ?thesis using p_act by (simp add: at_p z0_replace_z10)
  next
    case False
    have nq: "r \<noteq> q" using that(1,3) qq(2) tg [OF that(1), of i] by auto
    have "\<not> tagged cur (es ! r)" using only_p [OF that(1)] False by blast
    moreover have "data_carousel_image (es ! r) \<noteq> None" using that(2) tag [OF that(1)] by simp
    ultimately have "''z-0'' \<in> set (classes (es ! r))" using C [OF that(1)] by blast
    then show ?thesis using other [OF that(1) False nq] by simp
  qed
  then have c5: "\<forall>r < length es'. data_carousel_image (es' ! r) \<noteq> None \<and> \<not> tagged i (es' ! r) \<longrightarrow>
            ''z-0'' \<in> set (classes (es' ! r))"
    unfolding len by blast
  have "images_ok i True L es'"
    unfolding images_ok_def by (intro conjI c1 c2 c3 c4 c5)
  then show ?thesis by (simp only: es'_def)
qed

subsection \<open>The dot invariant under a switch\<close>

lemma dots_ok_switch:
  assumes ok: "dots_ok cur ds" and ne: "i \<noteq> cur"
  shows "dots_ok i (dot_replace i ''bg-black/20'' ''bg-black''
           (dot_replace cur ''bg-black'' ''bg-black/20'' ds))"
proof -
  define ds' where "ds' = dot_replace i ''bg-black/20'' ''bg-black''
           (dot_replace cur ''bg-black'' ''bg-black/20'' ds)"
  let ?n = "length ds"
  have len: "length ds' = ?n" by (simp add: ds'_def)
  have A: "\<And>j. j < ?n \<Longrightarrow> active_dot (ds ! j) \<longleftrightarrow> int j = cur"
    using ok by (simp add: dots_ok_def)
  have C: "\<And>j. j < ?n \<Longrightarrow> int j \<noteq> cur \<Longrightarrow> ''bg-black/20'' \<in> set (dot_classes (ds ! j))"
    using ok by (simp add: dots_ok_def)
  have at_i: "dot_classes (ds' ! j) = classList_replace ''bg-black/20'' ''bg-black'' (dot_classes (ds ! j))"
    if "j < ?n" "int j = i" for j
    using that ne by (simp add: ds'_def nth_dot_replace)
  have at_cur: "dot_classes (ds' ! j) = classList_replace ''bg-black'' ''bg-black/20'' (dot_classes (ds ! j))"
    if "j < ?n" "int j = cur" for j
    using that ne by (simp add: ds'_def nth_dot_replace)
  have other: "ds' ! j = ds ! j" if "j < ?n" "int j \<noteq> i" "int j \<noteq> cur" for j
    using that by (simp add: ds'_def nth_dot_replace)
  have a1: "active_dot (ds' ! j) \<longleftrightarrow> int j = i" if "j < ?n" for j
  proof (cases "int j = i")
    case True
    then have "''bg-black/20'' \<in> set (dot_classes (ds ! j))" using C [OF that] ne by simp
    with True show ?thesis
      by (simp add: active_dot_def at_i [OF that True] set_classList_replace)
  next
    case ni: False
    show ?thesis
    proof (cases "int j = cur")
      case True
      with ni show ?thesis
        by (simp add: active_dot_def at_cur [OF that True] set_classList_replace)
    next
      case False
      with ni A [OF that] other [OF that ni False] show ?thesis by simp
    qed
  qed
  have a2: "''bg-black/20'' \<in> set (dot_classes (ds' ! j))" if "j < ?n" "int j \<noteq> i" for j
  proof (cases "int j = cur")
    case True
    then have "active_dot (ds ! j)" using A [OF that(1)] by simp
    then show ?thesis
      by (simp add: active_dot_def at_cur [OF that(1) True] set_classList_replace)
  next
    case False
    with C [OF that(1) False] other [OF that False] show ?thesis by simp
  qed
  have c1: "\<forall>j < length ds'. active_dot (ds' ! j) \<longleftrightarrow> int j = i"
    unfolding len using a1 by blast
  have c2: "\<forall>j < length ds'. int j \<noteq> i \<longrightarrow> ''bg-black/20'' \<in> set (dot_classes (ds' ! j))"
    unfolding len using a2 by blast
  have "dots_ok i ds'" unfolding dots_ok_def by (intro conjI c1 c2)
  then show ?thesis by (simp only: ds'_def)
qed

subsection \<open>The invariant under the listeners\<close>

lemma coherent_ignore [simp]:
  "coherent (cl\<lparr>isProcessing := b\<rparr>) c = coherent cl c"
  "coherent cl (c\<lparr>frames := fs\<rparr>) = coherent cl c"
  "coherent cl (c\<lparr>closures := cs\<rparr>) = coherent cl c"
  by (simp_all add: coherent_def in_range_def)

lemma coherent_loadImages:
  assumes "coherent cl c"
  shows "coherent (fst (loadImages cl c)) (snd (loadImages cl c))"
proof (cases "imagesLoaded cl")
  case True
  with assms show ?thesis by (simp add: loadImages_def)
next
  case False
  have "images_ok (currentIndex cl) False (length (imagesUrl cl)) (elems c)"
    using assms False by (simp add: coherent_def)
  then have "images_ok (currentIndex cl) True (length (imagesUrl cl))
      (elems c @ map (\<lambda>i. new_img (int i) (imagesUrl cl ! i)) [1 ..< length (imagesUrl cl)])"
    by (rule images_ok_load)
  with assms False show ?thesis by (simp add: loadImages_def coherent_def in_range_def)
qed

lemma coherent_updateCarousel:
  assumes coh: "coherent cl c"
  shows "coherent (fst (updateCarousel i cl c)) (snd (updateCarousel i cl c))"
proof (cases "i = currentIndex cl \<or> i < 0 \<or> i \<ge> totalImages cl")
  case True
  with coh show ?thesis by (simp add: updateCarousel_def)
next
  case False
  then have i: "i \<noteq> currentIndex cl" "0 \<le> i" "i < totalImages cl" by simp_all
  obtain cl1 c1 where pre:
    "(if \<not> imagesLoaded cl \<and> 0 < i then loadImages cl c else (cl, c)) = (cl1, c1)"
    by (cases "if \<not> imagesLoaded cl \<and> 0 < i then loadImages cl c else (cl, c)")
  have coh1: "coherent cl1 c1"
    using coh pre coherent_loadImages [OF coh] by (auto split: if_splits)
  have cur0: "\<not> imagesLoaded cl \<Longrightarrow> currentIndex cl = 0"
    using coh by (simp add: coherent_def images_ok_def)
  have loaded: "imagesLoaded cl1"
  proof (cases "imagesLoaded cl")
    case True
    with pre show ?thesis by simp
  next
    case False
    with cur0 i have "0 < i" by simp
    with False pre have "cl1 = fst (loadImages cl c)" by simp
    then show ?thesis by (simp add: loadImages_sets_flag)
  qed
  have same: "currentIndex cl1 = currentIndex cl" "totalImages cl1 = totalImages cl"
    using pre_index [OF pre] by simp_all
  let ?L = "length (imagesUrl cl1)"
  have rng: "0 \<le> currentIndex cl" "currentIndex cl < int ?L" "i < int ?L"
    "totalImages cl1 \<le> int (length (dotElements c1))"
    using coh1 same i by (simp_all add: coherent_def in_range_def)
  have ok: "images_ok (currentIndex cl) True ?L (elems c1)"
    using coh1 loaded same by (simp add: coherent_def)
  have dk: "dots_ok (currentIndex cl) (dotElements c1)"
    using coh1 same by (simp add: coherent_def)
  obtain p where p: "find_first (tagged (currentIndex cl)) (elems c1) = Some p"
    using images_ok_query [OF ok rng(1,2)] by blast
  obtain q where q: "find_first (tagged i) (elems c1) = Some q"
    using images_ok_query [OF ok i(2) rng(3)] by blast
  have form: "updateCarousel i cl c =
     (cl1\<lparr>currentIndex := i\<rparr>,
      c1\<lparr>elems := elem_replace q ''z-0'' ''z-10'' (elem_replace p ''z-10'' ''z-0'' (elems c1)),
         dotElements := dot_replace i ''bg-black/20'' ''bg-black''
            (dot_replace (currentIndex cl) ''bg-black'' ''bg-black/20'' (dotElements c1))\<rparr>)"
    using p q by (simp add: updateCarousel_switch_form [OF i pre] querySelector_image_def)
  have "images_ok i True ?L
      (elem_replace q ''z-0'' ''z-10'' (elem_replace p ''z-10'' ''z-0'' (elems c1)))"
    using ok i(1) p q by (rule images_ok_switch)
  moreover have "dots_ok i (dot_replace i ''bg-black/20'' ''bg-black''
            (dot_replace (currentIndex cl) ''bg-black'' ''bg-black/20'' (dotElements c1)))"
    using dk i(1) by (rule dots_ok_switch)
  ultimately show ?thesis
    using coh1 loaded i same rng by (simp add: form coherent_def in_range_def)
qed

lemma coherent_with_closure:
  assumes "length (closures c) = 1" and "handler h" and "coherent (closures c ! 0) c"
    and "\<And>cl c. coherent cl c \<Longrightarrow> coherent (fst (h cl c)) (snd (h cl c))"
  shows "coherent (closures (with_closure 0 h c) ! 0) (with_closure 0 h c)"
proof -
  let ?r = "h (closures c ! 0) c"
  have "closures (snd ?r) = closures c" using assms(2) by (simp add: handler_def)
  then have "with_closure 0 h c = (snd ?r)\<lparr>closures := [fst ?r]\<rparr>"
    using assms(1) by (cases "closures c") (simp_all add: with_closure_def split_beta)
  then show ?thesis using assms(4) [OF assms(3)] by simp
qed

lemma coherent_onClick: "coherent cl c \<Longrightarrow> coherent (fst (onClick j cl c)) (snd (onClick j cl c))"
  using coherent_updateCarousel [OF coherent_loadImages, of cl c "int j"]
  by (simp add: onClick_def split_beta)

lemma coherent_onMouseMove:
  "coherent cl c \<Longrightarrow> coherent (fst (onMouseMove f x k cl c)) (snd (onMouseMove f x k cl c))"
  by (simp add: onMouseMove_def)

lemma coherent_frameCallback:
  "coherent cl c \<Longrightarrow> coherent (fst (frameCallback r x cl c)) (snd (frameCallback r x cl c))"
  by (simp add: frameCallback_def Let_def split_beta coherent_updateCarousel)

lemma coherent_dispatch:
  assumes w: "wired c" and coh: "coherent (closures c ! 0) c"
  shows "coherent (closures (dispatch ev c) ! 0) (dispatch ev c)"
proof -
  have one: "length (closures c) = 1" using w by (simp add: wired_def wiring_def)
  show ?thesis
  proof (cases ev)
    case MouseEnter
    have "coherent (closures (with_closure 0 onMouseEnter c) ! 0) (with_closure 0 onMouseEnter c)"
      using one handler_onMouseEnter coh
      by (rule coherent_with_closure) (simp add: onMouseEnter_def coherent_loadImages)
    then show ?thesis by (simp add: wired_dispatch_form [OF w] MouseEnter)
  next
    case (Click j)
    have "coherent (closures (with_closure 0 (onClick j) c) ! 0) (with_closure 0 (onClick j) c)"
      using one handler_onClick coh by (rule coherent_with_closure) (rule coherent_onClick)
    then show ?thesis using coh by (simp add: wired_dispatch_form [OF w] Click)
  next
    case (MouseMove f x)
    have "coherent (closures (with_closure 0 (onMouseMove f x 0) c) ! 0)
        (with_closure 0 (onMouseMove f x 0) c)"
      using one handler_onMouseMove coh by (rule coherent_with_closure) (rule coherent_onMouseMove)
    then show ?thesis by (simp add: wired_dispatch_form [OF w] MouseMove)
  next
    case MouseLeave
    have "coherent (closures (with_closure 0 onMouseLeave c) ! 0) (with_closure 0 onMouseLeave c)"
      using one handler_onMouseLeave coh
      by (rule coherent_with_closure) (simp add: onMouseLeave_def coherent_updateCarousel)
    then show ?thesis by (simp add: wired_dispatch_form [OF w] MouseLeave)
  next
    case (AnimationFrame r)
    show ?thesis
    proof (cases "frames c")
      case Nil
      with coh show ?thesis by (simp add: wired_dispatch_form [OF w] AnimationFrame)
    next
      case (Cons a fs)
      obtain k x where a: "a = (k, x)" by (cases a)
      have "coherent (closures (with_closure 0 (frameCallback r x) (c\<lparr>frames := []\<rparr>)) ! 0)
          (with_closure 0 (frameCallback r x) (c\<lparr>frames := []\<rparr>))"
        by (rule coherent_with_closure [OF _ handler_frameCallback])
          (use one coh in \<open>simp_all add: coherent_frameCallback\<close>)
      then show ?thesis by (simp add: wired_dispatch_form [OF w] AnimationFrame Cons a)
    qed
  qed
qed

subsection \<open>The invariant after initialization\<close>

lemma images_ok_markup:
  assumes one: "length (filter (\<lambda>e. data_carousel_image e \<noteq> None) es) = 1"
    and cls: "\<forall>e \<in> set es. if data_carousel_image e = None then \<not> active_image e
            else data_carousel_image e = Some ''0'' \<and> active_image e"
  shows "images_ok 0 False L es"
proof -
  have e: "(if data_carousel_image (es ! r) = None then \<not> active_image (es ! r)
      else tagged 0 (es ! r) \<and> active_image (es ! r))" if "r < length es" for r
    using cls that by (simp add: tagged_0)
  have c1: "\<forall>r < length es. \<forall>r' < length es.
          data_carousel_image (es ! r) \<noteq> None
          \<and> data_carousel_image (es ! r) = data_carousel_image (es ! r') \<longrightarrow> r = r'"
  proof (intro allI impI)
    fix r r' assume r: "r < length es" "r' < length es"
      and t: "data_carousel_image (es ! r) \<noteq> None
          \<and> data_carousel_image (es ! r) = data_carousel_image (es ! r')"
    from t have "data_carousel_image (es ! r') \<noteq> None" by metis
    with one r t show "r = r'"
      using filter_one_unique [of "\<lambda>e. data_carousel_image e \<noteq> None" es r r'] by blast
  qed
  obtain r0 where r0: "r0 < length es" "data_carousel_image (es ! r0) \<noteq> None"
    using filter_one_exists [OF one] by blast
  then have "tagged 0 (es ! r0)" using e [of r0] by simp
  have c2: "\<forall>i. 0 \<le> i \<and> i < (if False then int L else 1) \<longrightarrow>
      (\<exists>r < length es. tagged i (es ! r))"
  proof (intro allI impI)
    fix i :: int assume "0 \<le> i \<and> i < (if False then int L else 1)"
    then have "i = 0" by simp
    with r0 \<open>tagged 0 (es ! r0)\<close> show "\<exists>r < length es. tagged i (es ! r)" by blast
  qed
  have c3: "\<not> False \<longrightarrow> (0::int) = 0
      \<and> (\<forall>r < length es. data_carousel_image (es ! r) \<noteq> None \<longrightarrow> tagged 0 (es ! r))"
    using e by simp
  have c4: "\<forall>r < length es. active_image (es ! r) \<longleftrightarrow> tagged 0 (es ! r)"
  proof (intro allI impI)
    fix r assume r: "r < length es"
    show "active_image (es ! r) \<longleftrightarrow> tagged 0 (es ! r)"
      using e [OF r] by (cases "data_carousel_image (es ! r) = None") (simp_all add: tagged_def)
  qed
  have c5: "\<forall>r < length es. data_carousel_image (es ! r) \<noteq> None \<and> \<not> tagged 0 (es ! r) \<longrightarrow>
            ''z-0'' \<in> set (classes (es ! r))"
  proof (intro allI impI)
    fix r assume r: "r < length es"
      and "data_carousel_image (es ! r) \<noteq> None \<and> \<not> tagged 0 (es ! r)"
    then show "''z-0'' \<in> set (classes (es ! r))" using e [OF r] by (auto split: if_splits)
  qed
  show ?thesis unfolding images_ok_def by (intro conjI c1 c2 c3 c4 c5)
qed

lemma dots_ok_markup:
  assumes ne: "ds \<noteq> []"
    and rest: "\<forall>d \<in> set (tl ds). \<not> active_dot d \<and> ''bg-black/20'' \<in> set (dot_classes d)"
  shows "dots_ok 0 (mark_first_dot (add_click_listeners k (hide_extra_dots n ds)))"
proof -
  define ds1 where "ds1 = add_click_listeners k (hide_extra_dots n ds)"
  define ds' where "ds' = mark_first_dot ds1"
  have len: "length ds' = length ds" "length ds1 = length ds" by (simp_all add: ds'_def ds1_def)
  have "map dot_classes ds1 = map dot_classes ds" by (simp add: ds1_def)
  then have cl1: "dot_classes (ds1 ! j) = dot_classes (ds ! j)" if "j < length ds" for j
    using that len(2) by (metis nth_map)
  have "ds1 \<noteq> []" using ne len(2) by (metis length_0_conv)
  then have first: "active_dot (ds' ! 0)"
    using mark_first_dot_active [of ds1] by (simp add: ds'_def active_dot_def)
  have later: "\<not> active_dot (ds' ! j) \<and> ''bg-black/20'' \<in> set (dot_classes (ds' ! j))"
    if "j < length ds" "0 < j" for j
  proof -
    have "ds' ! j = ds1 ! j" using that(2) by (simp add: ds'_def mark_first_dot_rest)
    then have c: "dot_classes (ds' ! j) = dot_classes (ds ! j)" using cl1 [OF that(1)] by simp
    have "ds ! j = tl ds ! (j - 1)" using that by (simp add: nth_tl)
    moreover have "j - 1 < length (tl ds)" using that by simp
    ultimately have "ds ! j \<in> set (tl ds)" by (metis nth_mem)
    with rest have "\<not> active_dot (ds ! j) \<and> ''bg-black/20'' \<in> set (dot_classes (ds ! j))" by blast
    with c show ?thesis by (simp add: active_dot_def)
  qed
  have c1: "\<forall>j < length ds'. active_dot (ds' ! j) \<longleftrightarrow> int j = 0"
  proof (intro allI impI)
    fix j assume "j < length ds'"
    then show "active_dot (ds' ! j) \<longleftrightarrow> int j = 0"
      using first later [of j] len(1) by (cases "j = 0") simp_all
  qed
  have c2: "\<forall>j < length ds'. int j \<noteq> 0 \<longrightarrow> ''bg-black/20'' \<in> set (dot_classes (ds' ! j))"
  proof (intro allI impI)
    fix j assume "j < length ds'" "int j \<noteq> 0"
    then show "''bg-black/20'' \<in> set (dot_classes (ds' ! j))"
      using later [of j] len(1) by simp
  qed
  have "dots_ok 0 ds'" unfolding dots_ok_def by (intro conjI c1 c2)
  then show ?thesis by (simp only: ds'_def ds1_def)
qed

lemma coherent_init:
  assumes con: "consistent P c" and fr: "closures c = []"
    and gt: "1 < total_of (dataset_totalImages c)"
  shows "coherent (closures (fst (init_one P c)) ! 0) (fst (init_one P c))"
proof -
  obtain urls where urls: "parse_images P (dataset_images c) = Inr urls"
      "total_of (dataset_totalImages c) \<le> int (length urls)"
    using con by (auto simp: consistent_def split: sum.splits)
  have card: "in_card c" using con by (simp add: consistent_def)
  have nd: "total_of (dataset_totalImages c) \<le> int (length (dotElements c))"
    using con by (simp add: consistent_def)
  then have ne: "dotElements c \<noteq> []" using gt by auto
  have im: "images_ok 0 False (length urls) (elems c)"
    using con by (intro images_ok_markup) (simp_all add: consistent_def)
  have dk: "dots_ok 0 (mark_first_dot (add_click_listeners 0
      (hide_extra_dots (total_of (dataset_totalImages c)) (dotElements c))))"
    using ne con by (intro dots_ok_markup) (simp_all add: consistent_def)
  show ?thesis
    using im dk gt urls(2) nd fr
    by (simp add: init_one_interactive [OF card urls(1) gt] coherent_def in_range_def)
qed

lemma reachable_fresh: "reachable P c0 c \<Longrightarrow> fresh c0"
  by (induction rule: reachable.induct)

lemma reachable_coherent:
  assumes con: "consistent P c0"
  shows "reachable P c0 c \<Longrightarrow>
     c = c0 \<or> (fresh c \<and> data_initialized c \<noteq> None)
     \<or> (wired c \<and> coherent (closures c ! 0) c)"
proof (induction rule: reachable.induct)
  case start
  then show ?case by simp
next
  case (init c)
  have f0: "fresh c0" using init.hyps by (rule reachable_fresh)
  show ?case
  proof (cases "data_initialized c = None")
    case False
    then have "init_if_selected P c = c" by (auto simp: init_if_selected_def)
    with init.IH show ?thesis by simp
  next
    case True
    with init.IH have c: "c = c0" by (auto simp: wired_def wiring_def)
    have step: "init_if_selected P c = fst (init_one P c0)"
      using True c by (simp add: init_if_selected_def)
    show ?thesis
    proof (cases "total_of (dataset_totalImages c0) \<le> 1")
      case True
      then have "fresh (fst (init_one P c0))" using f0 by (rule fresh_init_one_single)
      then show ?thesis by (simp add: step)
    next
      case False
      then have gt: "1 < total_of (dataset_totalImages c0)" by simp
      have cl: "closures c0 = []" using f0 by (simp add: fresh_def)
      have "\<not> fresh (fst (init_one P c0))"
        using con gt
        by (auto simp: consistent_def fresh_def init_one_interactive split: sum.splits)
      then have "wired (fst (init_one P c0))" using init_one_wired [OF f0, of P] by simp
      moreover have "coherent (closures (fst (init_one P c0)) ! 0) (fst (init_one P c0))"
        using con cl gt by (rule coherent_init)
      ultimately show ?thesis by (simp add: step)
    qed
  qed
next
  case (event c ev)
  have f0: "fresh c0" using event.hyps by (rule reachable_fresh)
  from event.IH show ?case
  proof (elim disjE conjE)
    assume "c = c0"
    then show ?thesis using f0 by (simp add: fresh_dispatch)
  next
    assume "fresh c" "data_initialized c \<noteq> None"
    then show ?thesis by (simp add: fresh_dispatch)
  next
    assume "wired c" "coherent (closures c ! 0) c"
    then show ?thesis by (simp add: wired_dispatch coherent_dispatch)
  qed
qed

subsection \<open>Exactly one active image and one active dot\<close>

text \<open>
  Claim C9, as amended. For a container whose markup and data agree (\<open>consistent\<close>: the
  image list holds at least \<open>totalImages\<close> URLs after filtering, there are at least
  \<open>totalImages\<close> dots, the primary image is the one element tagged \<open>data-carousel-image\<close>,
  with 0, and the only element with \<open>z-10\<close>, and the dots after the first are rendered
  inactive), in every reachable state in which the container has been initialized with
  more than one image: it has one closure, exactly one element of the container carries
  \<open>z-10\<close>, exactly one dot carries \<open>bg-black\<close>, and they are the element that
  \<open>querySelector\<close> finds for the current index and the dot at the current index.
\<close>

theorem one_active_image_and_dot:
  assumes "consistent JSON_parse c0" and "reachable JSON_parse c0 c" and "closures c \<noteq> []"
  shows "length (closures c) = 1
     \<and> length (filter active_image (elems c)) = 1
     \<and> length (filter active_dot (dotElements c)) = 1
     \<and> (\<exists>p. querySelector_image (currentIndex (closures c ! 0)) c = Some p
              \<and> active_image (elems c ! p))
     \<and> nat (currentIndex (closures c ! 0)) < length (dotElements c)
     \<and> active_dot (dotElements c ! nat (currentIndex (closures c ! 0)))"
proof -
  let ?cl = "closures c ! 0"
  let ?cur = "currentIndex ?cl"
  let ?es = "elems c" and ?ds = "dotElements c"
  have f0: "fresh c0" using assms(2) by (rule reachable_fresh)
  have "\<not> fresh c" "c \<noteq> c0" using assms(3) f0 by (auto simp: fresh_def)
  with reachable_coherent [OF assms(1,2)] have w: "wired c" and coh: "coherent ?cl c" by auto
  have one: "length (closures c) = 1" using w by (simp add: wired_def wiring_def)
  have rng: "0 \<le> ?cur" "?cur < totalImages ?cl" "totalImages ?cl \<le> int (length (imagesUrl ?cl))"
    "totalImages ?cl \<le> int (length ?ds)"
    using coh by (simp_all add: coherent_def in_range_def)
  have ok: "images_ok ?cur (imagesLoaded ?cl) (length (imagesUrl ?cl)) ?es"
    using coh by (simp add: coherent_def)
  have dk: "dots_ok ?cur ?ds" using coh by (simp add: coherent_def)
  have U: "\<And>r r'. r < length ?es \<Longrightarrow> r' < length ?es \<Longrightarrow> data_carousel_image (?es ! r) \<noteq> None \<Longrightarrow>
      data_carousel_image (?es ! r) = data_carousel_image (?es ! r') \<Longrightarrow> r = r'"
    using ok by (simp add: images_ok_def)
  have A: "\<And>r. r < length ?es \<Longrightarrow> active_image (?es ! r) \<longleftrightarrow> tagged ?cur (?es ! r)"
    using ok by (simp add: images_ok_def)
  have "\<not> imagesLoaded ?cl \<longrightarrow> ?cur = 0" using ok by (simp add: images_ok_def)
  then have "0 \<le> ?cur \<and> ?cur < (if imagesLoaded ?cl then int (length (imagesUrl ?cl)) else 1)"
    using rng by auto
  moreover have "\<forall>i. 0 \<le> i \<and> i < (if imagesLoaded ?cl then int (length (imagesUrl ?cl)) else 1)
      \<longrightarrow> (\<exists>r < length ?es. tagged i (?es ! r))"
    using ok by (simp add: images_ok_def)
  ultimately obtain r where r: "r < length ?es" "tagged ?cur (?es ! r)" by blast
  have uniq: "r' = r" if "r' < length ?es" "active_image (?es ! r')" for r'
  proof -
    have t: "tagged ?cur (?es ! r')" using A [OF that(1)] that(2) by simp
    then have "data_carousel_image (?es ! r') \<noteq> None"
      "data_carousel_image (?es ! r') = data_carousel_image (?es ! r)"
      using r(2) by (simp_all add: tagged_def)
    then show ?thesis using U [OF that(1) r(1)] by blast
  qed
  have img: "length (filter active_image ?es) = 1"
  proof (rule filter_one_intro [of r ?es active_image])
    show "r < length ?es" by (rule r(1))
    show "active_image (?es ! r)" using A [OF r(1)] r(2) by simp
    show "r' = r" if "r' < length ?es" "active_image (?es ! r')" for r'
      using that by (rule uniq)
  qed
  obtain p where p: "find_first (tagged ?cur) ?es = Some p"
    using find_first_exists [of r ?es "tagged ?cur"] r by blast
  then have "active_image (?es ! p)"
    using find_first_Some [of "tagged ?cur" ?es p] A [of p] by simp
  with p have qs: "\<exists>p. querySelector_image ?cur c = Some p \<and> active_image (?es ! p)"
    by (simp add: querySelector_image_def)
  have DA: "\<And>j. j < length ?ds \<Longrightarrow> active_dot (?ds ! j) \<longleftrightarrow> int j = ?cur"
    using dk by (simp add: dots_ok_def)
  have j: "nat ?cur < length ?ds" using rng by simp
  have act: "active_dot (?ds ! nat ?cur)" using DA [OF j] rng(1) by simp
  have dot: "length (filter active_dot ?ds) = 1"
  proof (rule filter_one_intro [of "nat ?cur" ?ds active_dot])
    show "nat ?cur < length ?ds" by (rule j)
    show "active_dot (?ds ! nat ?cur)" by (rule act)
    fix j' assume "j' < length ?ds" "active_dot (?ds ! j')"
    then have "int j' = ?cur" using DA by simp
    then show "j' = nat ?cur" by simp
  qed
  from one img dot qs j act show ?thesis by simp
qed

theorem one_active_image_and_dot_witness:
  "consistent example_parse example_markup
   \<and> reachable example_parse example_markup
       (dispatch (Click 2) (init_if_selected example_parse example_markup))
   \<and> closures (dispatch (Click 2) (init_if_selected example_parse example_markup)) \<noteq> []
   \<and> length (filter active_image
        (elems (dispatch (Click 2) (init_if_selected example_parse example_markup)))) = 1
   \<and> length (filter active_dot
        (dotElements (dispatch (Click 2) (init_if_selected example_parse example_markup)))) = 1"
proof -
  have f: "fresh example_markup"
    by (simp add: fresh_def example_markup_def example_dot_def)
  have r: "reachable example_parse example_markup
     (dispatch (Click 2) (init_if_selected example_parse example_markup))"
    by (intro reachable.event reachable.init reachable.start f)
  have c: "consistent example_parse example_markup" by code_simp
  have n: "closures (dispatch (Click 2) (init_if_selected example_parse example_markup)) \<noteq> []"
    by code_simp
  from one_active_image_and_dot [OF c r n] c r n show ?thesis by simp
qed

text \<open>
  Claim C9 as stated fails where the image list is shorter than the total count: with
  \<open>data-total-images = 3\<close>, two URLs and three dots, a click on the third dot leaves the
  current index at 2, no element with \<open>z-10\<close> and no dot with \<open>bg-black\<close>.
\<close>

theorem no_active_image_counterexample:
  "reachable example_parse (example_markup\<lparr>dataset_images := Some ''[\"a\", \"b\"]''\<rparr>)
     (dispatch (Click 2) example_short)
   \<and> length (closures (dispatch (Click 2) example_short)) = 1
   \<and> currentIndex (closures (dispatch (Click 2) example_short) ! 0) = 2
   \<and> length (filter active_image (elems (dispatch (Click 2) example_short))) = 0
   \<and> length (filter active_dot (dotElements (dispatch (Click 2) example_short))) = 0"
proof -
  have f: "fresh (example_markup\<lparr>dataset_images := Some ''[\"a\", \"b\"]''\<rparr>)"
    by (simp add: fresh_def example_markup_def example_dot_def)
  have r: "reachable example_parse (example_markup\<lparr>dataset_images := Some ''[\"a\", \"b\"]''\<rparr>)
     (dispatch (Click 2) example_short)"
    unfolding example_short_def by (intro reachable.event reachable.init reachable.start f)
  have e: "length (closures (dispatch (Click 2) example_short)) = 1
   \<and> currentIndex (closures (dispatch (Click 2) example_short) ! 0) = 2
   \<and> length (filter active_image (elems (dispatch (Click 2) example_short))) = 0
   \<and> length (filter active_dot (dotElements (dispatch (Click 2) example_short))) = 0"
    by code_simp
  from r e show ?thesis by simp
qed

end
